theory Spec2Isabelle
  imports Complex_Main
begin

section \<open>Data model: modules in a store\<close>

text \<open>
  The notebook builds PyTorch modules and mutates their parameters in place, and one
  activation object is referenced from several containers. Modules therefore live in a
  store: an address is the position of the object in the list of allocated objects, and
  every constructor call appends one object.

  Parameter entries are not modelled as floating-point numbers. An entry records where its
  value came from: the distribution the generator was asked for, and the position of the
  draw in the generator's stream. The generator is the counter of draws made so far.
\<close>

type_synonym ref = nat

datatype dist = Library_default | Normal real real

datatype sample = Empty | Draw dist nat

type_synonym vec = "sample list"

type_synonym mat = "sample list list"

datatype module =
    Linear nat nat mat vec
  | Tanh
  | ReLU
  | Sequential "ref list"

record state =
  heap :: "module list"
  gen :: nat

datatype error = NotImplementedError

subsection \<open>Filling tensors from the generator\<close>

text \<open>
  \<open>fill_vec\<close> and \<open>fill_mat\<close> overwrite every entry of a tensor with the next
  draws of the generator; the shape of the tensor is kept. \<open>normal_vec\<close> and
  \<open>normal_mat\<close> are \<^verbatim>\<open>Tensor.normal_(mean, std)\<close> and
  \<^verbatim>\<open>torch.nn.init.normal_(tensor, mean, std)\<close>.
\<close>

definition fill_vec :: "dist \<Rightarrow> nat \<Rightarrow> vec \<Rightarrow> vec \<times> nat" where
  "fill_vec d g v = (map (Draw d) [g ..< g + length v], g + length v)"

fun fill_mat :: "dist \<Rightarrow> nat \<Rightarrow> mat \<Rightarrow> mat \<times> nat" where
  "fill_mat d g [] = ([], g)"
| "fill_mat d g (row # rows) =
     (case fill_vec d g row of (row', g1) \<Rightarrow>
      case fill_mat d g1 rows of (rows', g2) \<Rightarrow> (row' # rows', g2))"

definition normal_vec :: "real \<Rightarrow> real \<Rightarrow> nat \<Rightarrow> vec \<Rightarrow> vec \<times> nat" where
  "normal_vec mean std g v = fill_vec (Normal mean std) g v"

definition normal_mat :: "real \<Rightarrow> real \<Rightarrow> nat \<Rightarrow> mat \<Rightarrow> mat \<times> nat" where
  "normal_mat mean std g w = fill_mat (Normal mean std) g w"

subsection \<open>Constructors\<close>

text \<open>
  \<^verbatim>\<open>torch.nn.Linear(in_features, out_features)\<close> allocates a weight of shape
  \<open>out_features \<times> in_features\<close> and a bias of length \<open>out_features\<close> and fills both
  with the library's default initialisation. \<^verbatim>\<open>torch.nn.Sequential(*args)\<close> stores
  references to its arguments, in order.
\<close>

definition alloc :: "module \<Rightarrow> state \<Rightarrow> ref \<times> state" where
  "alloc m s = (length (heap s), s\<lparr>heap := heap s @ [m]\<rparr>)"

definition new_Linear :: "nat \<Rightarrow> nat \<Rightarrow> state \<Rightarrow> ref \<times> state" where
  "new_Linear in_features out_features s =
     (case fill_mat Library_default (gen s)
             (replicate out_features (replicate in_features Empty)) of (w, g1) \<Rightarrow>
      case fill_vec Library_default g1 (replicate out_features Empty) of (b, g2) \<Rightarrow>
        alloc (Linear in_features out_features w b) (s\<lparr>gen := g2\<rparr>))"

definition new_Tanh :: "state \<Rightarrow> ref \<times> state" where
  "new_Tanh s = alloc Tanh s"

definition new_ReLU :: "state \<Rightarrow> ref \<times> state" where
  "new_ReLU s = alloc ReLU s"

definition new_Sequential :: "ref list \<Rightarrow> state \<Rightarrow> ref \<times> state" where
  "new_Sequential args s = alloc (Sequential args) s"

section \<open>get_multilayer_perceptron\<close>

text \<open>
  The dimensions are sizes, hence natural numbers (the library rejects a negative size
  by itself); \<open>n_hidden_layers\<close> is any integer, since the code computes with it. The
  default value of \<open>activation\<close> is left to the caller.

  The loop \<^verbatim>\<open>for i in range(n_hidden_layers - 1)\<close> runs \<open>nat (n_hidden_layers - 1)\<close>
  times: no time at all when \<open>n_hidden_layers \<le> 1\<close>. Each round evaluates the arguments
  of \<^verbatim>\<open>Sequential\<close> first (a new \<^verbatim>\<open>Linear\<close>) and then allocates the container around
  the previous model, the new layer and the activation object made before the loop.
\<close>

fun hidden_loop :: "nat \<Rightarrow> nat \<Rightarrow> ref \<Rightarrow> ref \<Rightarrow> state \<Rightarrow> ref \<times> state" where
  "hidden_loop 0 n_hidden_dimension activationfn model s = (model, s)"
| "hidden_loop (Suc k) n_hidden_dimension activationfn model s =
     (case new_Linear n_hidden_dimension n_hidden_dimension s of (l, s1) \<Rightarrow>
      case new_Sequential [model, l, activationfn] s1 of (model', s2) \<Rightarrow>
        hidden_loop k n_hidden_dimension activationfn model' s2)"

text \<open>
  \<open>build\<close> is the body of the function from the first \<^verbatim>\<open>Sequential\<close> to the
  \<^verbatim>\<open>return\<close>, given the activation object and the store it was allocated in.
\<close>

definition build :: "nat \<Rightarrow> nat \<Rightarrow> int \<Rightarrow> nat \<Rightarrow> ref \<times> state \<Rightarrow> ref \<times> state" where
  "build n_network n_class n_hidden_layers n_hidden_dimension a =
     (case a of (activationfn, s0) \<Rightarrow>
      case new_Linear n_network n_hidden_dimension s0 of (l0, s1) \<Rightarrow>
      case new_Sequential [l0, activationfn] s1 of (model0, s2) \<Rightarrow>
      case hidden_loop (nat (n_hidden_layers - 1)) n_hidden_dimension activationfn model0 s2
        of (model1, s3) \<Rightarrow>
      case new_Linear n_hidden_dimension n_class s3 of (l1, s4) \<Rightarrow>
        new_Sequential [model1, l1] s4)"

definition get_multilayer_perceptron ::
  "nat \<Rightarrow> nat \<Rightarrow> int \<Rightarrow> nat \<Rightarrow> string \<Rightarrow> state \<Rightarrow> (error + ref) \<times> state" where
  "get_multilayer_perceptron n_network n_class n_hidden_layers n_hidden_dimension activation s =
     (if activation = ''tanh'' then
        (case build n_network n_class n_hidden_layers n_hidden_dimension (new_Tanh s)
           of (model, s') \<Rightarrow> (Inr model, s'))
      else if activation = ''relu'' then
        (case build n_network n_class n_hidden_layers n_hidden_dimension (new_ReLU s)
           of (model, s') \<Rightarrow> (Inr model, s'))
      else (Inl NotImplementedError, s))"

section \<open>Reading a network\<close>

text \<open>
  \<open>layers\<close> lists the leaf modules of a network in the order in which
  \<^verbatim>\<open>Sequential.forward\<close> runs them: a container runs its entries one after the other,
  a shared module once for every entry that refers to it. The first argument bounds the
  nesting depth, as the interpreter's recursion limit does; \<open>None\<close> is a traversal that
  did not finish within it, or that met an address with no object.
\<close>

fun layers :: "nat \<Rightarrow> module list \<Rightarrow> ref \<Rightarrow> ref list option"
  and layers_list :: "nat \<Rightarrow> module list \<Rightarrow> ref list \<Rightarrow> ref list option" where
  "layers 0 h r = None"
| "layers (Suc n) h r =
     (if r < length h then
        (case h ! r of Sequential cs \<Rightarrow> layers_list n h cs | _ \<Rightarrow> Some [r])
      else None)"
| "layers_list n h [] = Some []"
| "layers_list n h (c # cs) =
     (case layers n h c of None \<Rightarrow> None
      | Some xs \<Rightarrow> (case layers_list n h cs of None \<Rightarrow> None | Some ys \<Rightarrow> Some (xs @ ys)))"

datatype layer = Affine nat nat | Activation string | Container

fun describe :: "module \<Rightarrow> layer" where
  "describe (Linear i out w b) = Affine i out"
| "describe Tanh = Activation ''tanh''"
| "describe ReLU = Activation ''relu''"
| "describe (Sequential cs) = Container"

fun is_Linear :: "module \<Rightarrow> bool" where
  "is_Linear (Linear i out w b) = True"
| "is_Linear m = False"

fun is_activation :: "module \<Rightarrow> bool" where
  "is_activation Tanh = True"
| "is_activation ReLU = True"
| "is_activation m = False"

text \<open>
  A nesting without a cycle is never deeper than the number of objects in the store, so
  that number is a bound that cuts no traversal that would finish.
\<close>

definition network_layers :: "state \<Rightarrow> ref \<Rightarrow> ref list option" where
  "network_layers s net = layers (length (heap s)) (heap s) net"

definition affine_layers :: "state \<Rightarrow> ref list \<Rightarrow> ref list" where
  "affine_layers s ls = filter (\<lambda>r. is_Linear (heap s ! r)) ls"

definition activation_layers :: "state \<Rightarrow> ref list \<Rightarrow> ref list" where
  "activation_layers s ls = filter (\<lambda>r. is_activation (heap s ! r)) ls"

text \<open>
  The widths of consecutive affine layers chain: what one affine layer puts out is what
  the next one takes in. Activations work element by element and keep the width.
\<close>

fun chains :: "nat \<Rightarrow> layer list \<Rightarrow> nat option" where
  "chains width [] = Some width"
| "chains width (Affine i out # ls) = (if i = width then chains out ls else None)"
| "chains width (Activation a # ls) = chains width ls"
| "chains width (Container # ls) = None"

section \<open>init_weights and Module.apply\<close>

text \<open>
  \<^verbatim>\<open>init_weights(m)\<close> tests \<^verbatim>\<open>isinstance(m, torch.nn.Linear)\<close> and then overwrites the
  weight and, after it, the bias of \<open>m\<close> in place, with mean \<open>0\<close> and standard
  deviation \<open>0.5\<close>.
\<close>

definition init_weights :: "ref \<Rightarrow> state \<Rightarrow> state" where
  "init_weights m s =
     (case heap s ! m of
        Linear i out w b \<Rightarrow>
          (case normal_mat 0 0.5 (gen s) w of (w', g1) \<Rightarrow>
           case normal_vec 0 0.5 g1 b of (b', g2) \<Rightarrow>
             \<lparr>heap = (heap s)[m := Linear i out w' b'], gen = g2\<rparr>)
      | _ \<Rightarrow> s)"

text \<open>
  \<^verbatim>\<open>Module.children()\<close> yields the immediate children of a module, every object once
  (it keeps a set of the objects already seen). \<^verbatim>\<open>Module.apply(fn)\<close> calls itself on
  every child and then calls \<open>fn\<close> on the module. The first argument of
  \<open>module_apply\<close> bounds the nesting depth; \<open>None\<close> is a traversal that did not finish
  within it, or that met an address with no object.
\<close>

fun unseen :: "ref list \<Rightarrow> ref list \<Rightarrow> ref list" where
  "unseen memo [] = []"
| "unseen memo (c # cs) =
     (if c \<in> set memo then unseen memo cs else c # unseen (c # memo) cs)"

fun children :: "module \<Rightarrow> ref list" where
  "children (Sequential cs) = unseen [] cs"
| "children m = []"

fun module_apply :: "(ref \<Rightarrow> state \<Rightarrow> state) \<Rightarrow> nat \<Rightarrow> ref \<Rightarrow> state \<Rightarrow> state option"
  and apply_children :: "(ref \<Rightarrow> state \<Rightarrow> state) \<Rightarrow> nat \<Rightarrow> ref list \<Rightarrow> state \<Rightarrow> state option"
  where
  "module_apply fn 0 m s = None"
| "module_apply fn (Suc n) m s =
     (if m < length (heap s) then
        (case apply_children fn n (children (heap s ! m)) s of
           None \<Rightarrow> None
         | Some s' \<Rightarrow> Some (fn m s'))
      else None)"
| "apply_children fn n [] s = Some s"
| "apply_children fn n (c # cs) s =
     (case module_apply fn n c s of None \<Rightarrow> None | Some s' \<Rightarrow> apply_children fn n cs s')"

definition apply_init_weights :: "ref \<Rightarrow> state \<Rightarrow> state option" where
  "apply_init_weights net s = module_apply init_weights (length (heap s)) net s"

text \<open>The notebook's loop \<^verbatim>\<open>for run in range(nruns): net.apply(init_weights)\<close>.\<close>

fun runs :: "nat \<Rightarrow> ref \<Rightarrow> state \<Rightarrow> state option" where
  "runs 0 net s = Some s"
| "runs (Suc nruns) net s =
     (case apply_init_weights net s of None \<Rightarrow> None | Some s' \<Rightarrow> runs nruns net s')"

subsection \<open>Stores built by constructors, and what a network contains\<close>

text \<open>
  A constructor can only refer to objects that exist already, so in every store that
  constructor calls build, the children of a container have smaller addresses than the
  container. \<open>reach h net m\<close>: the module \<open>m\<close> is \<open>net\<close> itself or sits at any depth
  below it.
\<close>

definition wf_heap :: "module list \<Rightarrow> bool" where
  "wf_heap h = list_all (\<lambda>r. list_all (\<lambda>c. c < r) (children (h ! r))) [0 ..< length h]"

inductive reach :: "module list \<Rightarrow> ref \<Rightarrow> ref \<Rightarrow> bool" for h :: "module list" where
  self: "r < length h \<Longrightarrow> reach h r r"
| child: "r < length h \<Longrightarrow> c \<in> set (children (h ! r)) \<Longrightarrow> reach h c m \<Longrightarrow> reach h r m"

subsection \<open>What the initializer writes and what it keeps\<close>

text \<open>
  \<open>fresh_block lo hi xs\<close>: the entries \<open>xs\<close> are, in their order, consecutive draws
  from the normal distribution with mean \<open>0\<close> and standard deviation \<open>0.5\<close>, one draw
  for each entry, made at positions of the generator's stream from \<open>lo\<close> up to, not
  including, \<open>hi\<close>. An affine layer is \<open>reinitialised\<close> when its weight, read row by row,
  followed by its bias is such a block. \<open>shape\<close> is the shape of the two parameters of an
  affine layer. \<open>erase\<close> forgets the values of the parameters and nothing else.
\<close>

definition fresh_block :: "nat \<Rightarrow> nat \<Rightarrow> sample list \<Rightarrow> bool" where
  "fresh_block lo hi xs =
     (\<exists>g \<in> {lo .. hi}. g + length xs \<le> hi
        \<and> xs = map (Draw (Normal 0 0.5)) [g ..< g + length xs])"

fun reinitialised :: "nat \<Rightarrow> nat \<Rightarrow> module \<Rightarrow> bool" where
  "reinitialised lo hi (Linear i out w b) = fresh_block lo hi (concat w @ b)"
| "reinitialised lo hi m = False"

fun shape :: "module \<Rightarrow> (nat list \<times> nat) option" where
  "shape (Linear i out w b) = Some (map length w, length b)"
| "shape m = None"

fun erase :: "module \<Rightarrow> module" where
  "erase (Linear i out w b) = Linear i out (map (map (\<lambda>x. Empty)) w) (map (\<lambda>x. Empty) b)"
| "erase m = m"

section \<open>Layer sequences and the store the builder leaves\<close>

lemma layers_append:
  "layers n h r = Some xs \<Longrightarrow> layers n (h @ h') r = Some xs"
  "layers_list n h cs = Some ys \<Longrightarrow> layers_list n (h @ h') cs = Some ys"
proof (induction n h r and n h cs arbitrary: xs and ys rule: layers_layers_list.induct)
  case (2 n h r)
  then show ?case by (auto simp: nth_append split: if_splits module.splits)
qed (auto split: option.splits)

lemma layers_list_fuel:
  "(\<And>r xs. layers n h r = Some xs \<Longrightarrow> layers m h r = Some xs) \<Longrightarrow>
   layers_list n h cs = Some ys \<Longrightarrow> layers_list m h cs = Some ys"
  by (induction cs arbitrary: ys) (auto split: option.splits)

lemma layers_fuel_add:
  "layers n h r = Some xs \<Longrightarrow> layers (n + k) h r = Some xs"
proof (induction n arbitrary: r xs)
  case 0
  then show ?case by simp
next
  case (Suc n)
  show ?case
  proof (cases "h ! r")
    case (Sequential cs)
    with Suc.prems have "layers_list n h cs = Some xs" "r < length h"
      by (auto split: if_splits)
    moreover from this(1) have "layers_list (n + k) h cs = Some xs"
      using Suc.IH by (rule layers_list_fuel[rotated])
    ultimately show ?thesis using Sequential by simp
  qed (use Suc.prems in \<open>auto split: if_splits\<close>)
qed

lemma layers_fuel_mono:
  "layers n h r = Some xs \<Longrightarrow> n \<le> m \<Longrightarrow> layers m h r = Some xs"
  using layers_fuel_add[of n h r xs "m - n"] by simp


lemma new_Linear_result:
  "\<exists>w b g. new_Linear i out s = (length (heap s), \<lparr>heap = heap s @ [Linear i out w b], gen = g\<rparr>)"
  by (cases s) (simp add: new_Linear_def alloc_def split: prod.splits)

lemma new_Sequential_result:
  "new_Sequential args s = (length (heap s), \<lparr>heap = heap s @ [Sequential args], gen = gen s\<rparr>)"
  by (simp add: new_Sequential_def alloc_def)

lemma layers_leaf:
  "r < length h \<Longrightarrow> describe (h ! r) \<noteq> Container \<Longrightarrow> layers (Suc n) h r = Some [r]"
  by (cases "h ! r") auto

lemma layers_Sequential:
  "r < length h \<Longrightarrow> h ! r = Sequential cs \<Longrightarrow> layers (Suc n) h r = layers_list n h cs"
  by simp

lemma layers_list_two:
  "layers n h a = Some xs \<Longrightarrow> layers n h b = Some ys \<Longrightarrow>
   layers_list n h [a, b] = Some (xs @ ys)"
  by simp

lemma hidden_loop_layers:
  assumes "layers f (heap s) model = Some xs"
    and "act < length (heap s)" and "describe (heap s ! act) \<noteq> Container"
  shows "\<exists>s'. hidden_loop k d act model s = ((if k = 0 then model else length (heap s) + 2 * k - 1), s')
      \<and> length (heap s') = length (heap s) + 2 * k
      \<and> (\<forall>r < length (heap s). heap s' ! r = heap s ! r)
      \<and> (\<forall>i < k. describe (heap s' ! (length (heap s) + 2 * i)) = Affine d d)
      \<and> (\<forall>i < k. describe (heap s' ! (length (heap s) + 2 * i + 1)) = Container)
      \<and> layers (f + k) (heap s') (if k = 0 then model else length (heap s) + 2 * k - 1)
           = Some (xs @ concat (map (\<lambda>i. [length (heap s) + 2 * i, act]) [0..<k]))"
  using assms
proof (induction k arbitrary: f s model xs)
  case 0
  then show ?case by simp
next
  case (Suc k)
  let ?L = "length (heap s)"
  obtain w b g where lin: "new_Linear d d s = (?L, \<lparr>heap = heap s @ [Linear d d w b], gen = g\<rparr>)"
    using new_Linear_result by blast
  define s1 where "s1 = \<lparr>heap = heap s @ [Linear d d w b], gen = g\<rparr>"
  define s2 where "s2 = \<lparr>heap = heap s @ [Linear d d w b, Sequential [model, ?L, act]], gen = g\<rparr>"
  have seq: "new_Sequential [model, ?L, act] s1 = (Suc ?L, s2)"
    by (simp add: new_Sequential_result s1_def s2_def)
  have step: "hidden_loop (Suc k) d act model s = hidden_loop k d act (Suc ?L) s2"
    using lin seq by (simp add: s1_def)
  have h2: "heap s2 = heap s @ [Linear d d w b, Sequential [model, ?L, act]]"
    by (simp add: s2_def)
  from Suc.prems(1) have fpos: "f \<noteq> 0" by (cases f) auto
  then obtain f' where f: "f = Suc f'" by (cases f) auto
  have m: "layers f (heap s2) model = Some xs"
    unfolding h2 using Suc.prems(1) by (rule layers_append(1))
  have l: "layers f (heap s2) ?L = Some [?L]"
    unfolding f by (rule layers_leaf) (simp_all add: h2 nth_append)
  have a: "layers f (heap s2) act = Some [act]"
    unfolding f using Suc.prems(2,3) by (intro layers_leaf) (simp_all add: h2 nth_append)
  have new: "layers (Suc f) (heap s2) (Suc ?L) = Some (xs @ [?L, act])"
    using m l a by (simp add: h2 nth_append)
  have act2: "act < length (heap s2)" "describe (heap s2 ! act) \<noteq> Container"
    using Suc.prems(2,3) by (simp_all add: h2 nth_append)
  from Suc.IH[OF new act2] obtain s' where
    run: "hidden_loop k d act (Suc ?L) s2 = ((if k = 0 then Suc ?L else length (heap s2) + 2 * k - 1), s')"
    and len: "length (heap s') = length (heap s2) + 2 * k"
    and frame: "\<forall>r < length (heap s2). heap s' ! r = heap s2 ! r"
    and aff: "\<forall>i < k. describe (heap s' ! (length (heap s2) + 2 * i)) = Affine d d"
    and con: "\<forall>i < k. describe (heap s' ! (length (heap s2) + 2 * i + 1)) = Container"
    and lay: "layers (Suc f + k) (heap s') (if k = 0 then Suc ?L else length (heap s2) + 2 * k - 1)
           = Some ((xs @ [?L, act]) @ concat (map (\<lambda>i. [length (heap s2) + 2 * i, act]) [0..<k]))"
    by blast
  have len2: "length (heap s2) = ?L + 2" by (simp add: h2)
  have res: "(if k = 0 then Suc ?L else length (heap s2) + 2 * k - 1) = ?L + 2 * Suc k - 1"
    by (simp add: len2)
  have 1: "hidden_loop (Suc k) d act model s = (?L + 2 * Suc k - 1, s')"
    using step run res by simp
  have 2: "length (heap s') = ?L + 2 * Suc k" using len len2 by simp
  have 3: "\<forall>r < ?L. heap s' ! r = heap s ! r"
    using frame by (simp add: h2 nth_append)
  have 4: "\<forall>i < Suc k. describe (heap s' ! (?L + 2 * i)) = Affine d d"
  proof (intro allI impI)
    fix i assume "i < Suc k"
    show "describe (heap s' ! (?L + 2 * i)) = Affine d d"
    proof (cases i)
      case 0
      then show ?thesis using frame by (simp add: h2 nth_append)
    next
      case (Suc j)
      with \<open>i < Suc k\<close> aff have "describe (heap s' ! (length (heap s2) + 2 * j)) = Affine d d"
        by simp
      then show ?thesis by (simp add: len2 Suc)
    qed
  qed
  have 5: "\<forall>i < Suc k. describe (heap s' ! (?L + 2 * i + 1)) = Container"
  proof (intro allI impI)
    fix i assume "i < Suc k"
    show "describe (heap s' ! (?L + 2 * i + 1)) = Container"
    proof (cases i)
      case 0
      then show ?thesis using frame by (simp add: h2 nth_append)
    next
      case (Suc j)
      with \<open>i < Suc k\<close> con have "describe (heap s' ! (length (heap s2) + 2 * j + 1)) = Container"
        by simp
      then show ?thesis by (simp add: len2 Suc)
    qed
  qed
  have 6: "layers (f + Suc k) (heap s') (?L + 2 * Suc k - 1)
           = Some (xs @ concat (map (\<lambda>i. [?L + 2 * i, act]) [0..<Suc k]))"
    using lay unfolding res by (simp add: map_upt_Suc len2 del: upt_Suc)
  show ?case using 1 2 3 4 5 6 by simp
qed


lemma build_layers:
  fixes s :: state and n :: int
  assumes act: "act < length (heap s)" "describe (heap s ! act) \<noteq> Container"
  defines "L \<equiv> length (heap s)" and "k \<equiv> nat (n - 1)"
  shows "\<exists>s'. build n_network n_class n d (act, s) = (L + 2 * k + 3, s')
      \<and> length (heap s') = L + 2 * k + 4
      \<and> (\<forall>r < L. heap s' ! r = heap s ! r)
      \<and> describe (heap s' ! L) = Affine n_network d
      \<and> describe (heap s' ! (L + 1)) = Container
      \<and> (\<forall>i < k. describe (heap s' ! (L + 2 + 2 * i)) = Affine d d)
      \<and> (\<forall>i < k. describe (heap s' ! (L + 2 + 2 * i + 1)) = Container)
      \<and> describe (heap s' ! (L + 2 * k + 2)) = Affine d n_class
      \<and> describe (heap s' ! (L + 2 * k + 3)) = Container
      \<and> layers (k + 3) (heap s') (L + 2 * k + 3)
           = Some ([L, act] @ concat (map (\<lambda>i. [L + 2 + 2 * i, act]) [0..<k]) @ [L + 2 * k + 2])"
proof -
  obtain w0 b0 g0 where lin0:
    "new_Linear n_network d s = (L, \<lparr>heap = heap s @ [Linear n_network d w0 b0], gen = g0\<rparr>)"
    unfolding L_def using new_Linear_result by blast
  define s2 where "s2 = \<lparr>heap = heap s @ [Linear n_network d w0 b0, Sequential [L, act]], gen = g0\<rparr>"
  have seq0: "new_Sequential [L, act] \<lparr>heap = heap s @ [Linear n_network d w0 b0], gen = g0\<rparr>
      = (Suc L, s2)"
    by (simp add: new_Sequential_result s2_def L_def)
  have h2: "heap s2 = heap s @ [Linear n_network d w0 b0, Sequential [L, act]]"
    by (simp add: s2_def)
  have len2: "length (heap s2) = L + 2" by (simp add: h2 L_def)
  have act2: "act < length (heap s2)" "describe (heap s2 ! act) \<noteq> Container"
    using act by (simp_all add: h2 nth_append)
  have "layers (Suc 0) (heap s2) L = Some [L]"
    by (rule layers_leaf) (simp_all add: h2 nth_append L_def)
  moreover have "layers (Suc 0) (heap s2) act = Some [act]"
    using act2 by (rule layers_leaf)
  ultimately have m0: "layers 2 (heap s2) (Suc L) = Some [L, act]"
    by (simp add: numeral_2_eq_2 h2 nth_append L_def)
  from hidden_loop_layers[OF m0 act2, of k d] obtain s3 where
    run: "hidden_loop k d act (Suc L) s2 = ((if k = 0 then Suc L else L + 2 + 2 * k - 1), s3)"
    and len3: "length (heap s3) = L + 2 + 2 * k"
    and frame3: "\<forall>r < L + 2. heap s3 ! r = heap s2 ! r"
    and aff3: "\<forall>i < k. describe (heap s3 ! (L + 2 + 2 * i)) = Affine d d"
    and con3: "\<forall>i < k. describe (heap s3 ! (L + 2 + 2 * i + 1)) = Container"
    and lay3: "layers (2 + k) (heap s3) (if k = 0 then Suc L else L + 2 + 2 * k - 1)
           = Some ([L, act] @ concat (map (\<lambda>i. [L + 2 + 2 * i, act]) [0..<k]))"
    unfolding len2 by blast
  define model1 where "model1 = (if k = 0 then Suc L else L + 2 + 2 * k - 1)"
  have model1: "model1 = L + 2 * k + 1" by (simp add: model1_def)
  obtain w1 b1 g1 where lin1:
    "new_Linear d n_class s3 = (L + 2 * k + 2, \<lparr>heap = heap s3 @ [Linear d n_class w1 b1], gen = g1\<rparr>)"
    using new_Linear_result[of d n_class s3] len3 by (auto simp: add.commute add.left_commute)
  define s5 where
    "s5 = \<lparr>heap = heap s3 @ [Linear d n_class w1 b1, Sequential [model1, L + 2 * k + 2]], gen = g1\<rparr>"
  have seq1: "new_Sequential [model1, L + 2 * k + 2] \<lparr>heap = heap s3 @ [Linear d n_class w1 b1], gen = g1\<rparr>
      = (L + 2 * k + 3, s5)"
    using len3 by (simp add: new_Sequential_result s5_def)
  have h5: "heap s5 = heap s3 @ [Linear d n_class w1 b1, Sequential [model1, L + 2 * k + 2]]"
    by (simp add: s5_def)
  have 1: "build n_network n_class n d (act, s) = (L + 2 * k + 3, s5)"
    using lin0 seq0 run lin1 seq1
    by (simp add: build_def k_def[symmetric] model1_def)
  have 2: "length (heap s5) = L + 2 * k + 4" using len3 by (simp add: h5)
  have old: "heap s5 ! r = heap s3 ! r" if "r < L + 2 + 2 * k" for r
    using that len3 by (simp add: h5 nth_append)
  have 3: "\<forall>r < L. heap s5 ! r = heap s ! r"
    using old frame3 by (simp add: h2 nth_append L_def)
  have 4: "describe (heap s5 ! L) = Affine n_network d"
    using old[of L] frame3 by (simp add: h2 nth_append L_def)
  have 5: "describe (heap s5 ! (L + 1)) = Container"
    using old[of "L + 1"] frame3 by (simp add: h2 nth_append L_def)
  have 6: "\<forall>i < k. describe (heap s5 ! (L + 2 + 2 * i)) = Affine d d"
    using aff3 old by simp
  have 7: "\<forall>i < k. describe (heap s5 ! (L + 2 + 2 * i + 1)) = Container"
    using con3 old by simp
  have 8: "describe (heap s5 ! (L + 2 * k + 2)) = Affine d n_class"
    using len3 by (simp add: h5 nth_append)
  have 9: "describe (heap s5 ! (L + 2 * k + 3)) = Container"
    using len3 by (simp add: h5 nth_append)
  have a: "layers (2 + k) (heap s5) model1
      = Some ([L, act] @ concat (map (\<lambda>i. [L + 2 + 2 * i, act]) [0..<k]))"
    unfolding h5 model1_def using lay3 by (rule layers_append(1))
  have b: "layers (2 + k) (heap s5) (L + 2 * k + 2) = Some [L + 2 * k + 2]"
    using layers_leaf[of "L + 2 * k + 2" "heap s5" "Suc k"] 2 8 by simp
  have 10: "layers (k + 3) (heap s5) (L + 2 * k + 3)
      = Some ([L, act] @ concat (map (\<lambda>i. [L + 2 + 2 * i, act]) [0..<k]) @ [L + 2 * k + 2])"
  proof -
    have eq: "k + 3 = Suc (2 + k)" by simp
    have lt: "L + 2 * k + 3 < length (heap s5)" using 2 by simp
    have top: "heap s5 ! (L + 2 * k + 3) = Sequential [model1, L + 2 * k + 2]"
      using len3 by (simp add: h5 nth_append)
    have "layers (Suc (2 + k)) (heap s5) (L + 2 * k + 3)
        = layers_list (2 + k) (heap s5) [model1, L + 2 * k + 2]"
      using lt top by (rule layers_Sequential)
    also have "\<dots> = Some (([L, act] @ concat (map (\<lambda>i. [L + 2 + 2 * i, act]) [0..<k]))
        @ [L + 2 * k + 2])"
      using a b by (rule layers_list_two)
    finally show ?thesis unfolding eq by (simp only: append_assoc)
  qed
  show ?thesis using 1 2 3 4 5 6 7 8 9 10 by blast
qed


section \<open>Properties of get_multilayer_perceptron\<close>

text \<open>
  C9. When the activation is not recognised, the error is raised before any constructor
  runs: the call returns the error and no network, and the store and the generator are
  what they were before the call.
\<close>

theorem get_multilayer_perceptron_error_allocates_nothing:
  "activation \<noteq> ''tanh'' \<Longrightarrow> activation \<noteq> ''relu'' \<Longrightarrow>
   get_multilayer_perceptron n_network n_class n d activation s = (Inl NotImplementedError, s)"
  by (simp add: get_multilayer_perceptron_def)

theorem get_multilayer_perceptron_error_allocates_nothing_witness:
  "get_multilayer_perceptron 1 1 1 32 ''sigmoid'' \<lparr>heap = [Tanh], gen = 7\<rparr>
     = (Inl NotImplementedError, \<lparr>heap = [Tanh], gen = 7\<rparr>)"
  using get_multilayer_perceptron_error_allocates_nothing[of "''sigmoid''" 1 1 1 32
      "\<lparr>heap = [Tanh], gen = 7\<rparr>"]
  by simp

lemma new_activation_result:
  "new_Tanh s = (length (heap s), s\<lparr>heap := heap s @ [Tanh]\<rparr>)"
  "new_ReLU s = (length (heap s), s\<lparr>heap := heap s @ [ReLU]\<rparr>)"
  by (simp_all add: new_Tanh_def new_ReLU_def alloc_def)

lemma get_multilayer_perceptron_network:
  fixes s :: state and n :: int
  assumes a: "activation = ''tanh'' \<or> activation = ''relu''"
  defines "L \<equiv> length (heap s)" and "k \<equiv> nat (n - 1)"
  shows "\<exists>s'.
    get_multilayer_perceptron n_network n_class n d activation s = (Inr (L + 2 * k + 4), s')
    \<and> length (heap s') = L + 2 * k + 5
    \<and> (\<forall>r < L. heap s' ! r = heap s ! r)
    \<and> describe (heap s' ! L) = Activation activation
    \<and> describe (heap s' ! (L + 1)) = Affine n_network d
    \<and> describe (heap s' ! (L + 2)) = Container
    \<and> (\<forall>i < k. describe (heap s' ! (L + 3 + 2 * i)) = Affine d d)
    \<and> (\<forall>i < k. describe (heap s' ! (L + 4 + 2 * i)) = Container)
    \<and> describe (heap s' ! (L + 2 * k + 3)) = Affine d n_class
    \<and> describe (heap s' ! (L + 2 * k + 4)) = Container
    \<and> network_layers s' (L + 2 * k + 4)
       = Some ([L + 1, L] @ concat (map (\<lambda>i. [L + 3 + 2 * i, L]) [0..<k]) @ [L + 2 * k + 3])"
proof -
  define m where "m = (if activation = ''tanh'' then Tanh else ReLU)"
  define s0 where "s0 = s\<lparr>heap := heap s @ [m]\<rparr>"
  have h0: "heap s0 = heap s @ [m]" by (simp add: s0_def)
  have dm: "describe m = Activation activation" using a by (auto simp: m_def)
  have act: "L < length (heap s0)" "describe (heap s0 ! L) \<noteq> Container"
    using dm by (simp_all add: h0 L_def)
  have len0: "length (heap s0) = L + 1" by (simp add: h0 L_def)
  from build_layers[OF act, of n_network n_class n d, folded k_def, unfolded len0]
  obtain s' where
    b: "build n_network n_class n d (L, s0) = (L + 1 + 2 * k + 3, s')"
    and len: "length (heap s') = L + 1 + 2 * k + 4"
    and frame: "\<forall>r < L + 1. heap s' ! r = heap s0 ! r"
    and d0: "describe (heap s' ! (L + 1)) = Affine n_network d"
    and d1: "describe (heap s' ! (L + 1 + 1)) = Container"
    and aff: "\<forall>i < k. describe (heap s' ! (L + 1 + 2 + 2 * i)) = Affine d d"
    and con: "\<forall>i < k. describe (heap s' ! (L + 1 + 2 + 2 * i + 1)) = Container"
    and d2: "describe (heap s' ! (L + 1 + 2 * k + 2)) = Affine d n_class"
    and d3: "describe (heap s' ! (L + 1 + 2 * k + 3)) = Container"
    and lay: "layers (k + 3) (heap s') (L + 1 + 2 * k + 3)
       = Some ([L + 1, L] @ concat (map (\<lambda>i. [L + 1 + 2 + 2 * i, L]) [0..<k]) @ [L + 1 + 2 * k + 2])"
    by blast
  have e: "L + 1 + 2 + 2 * i = L + 3 + 2 * i" "L + 3 + 2 * i + 1 = L + 4 + 2 * i"
    "L + 1 + 2 * k + 2 = L + 2 * k + 3" "L + 1 + 2 * k + 3 = L + 2 * k + 4" for i
    by simp_all
  have 1: "get_multilayer_perceptron n_network n_class n d activation s = (Inr (L + 2 * k + 4), s')"
    using a b unfolding e
    by (auto simp: get_multilayer_perceptron_def new_activation_result m_def s0_def L_def)
  have 2: "length (heap s') = L + 2 * k + 5" using len by simp
  have 3: "\<forall>r < L. heap s' ! r = heap s ! r"
    using frame by (simp add: h0 nth_append L_def)
  have 4: "describe (heap s' ! L) = Activation activation"
    using frame dm by (simp add: h0 nth_append L_def)
  have 5: "describe (heap s' ! (L + 2)) = Container" using d1 by simp
  have 6: "\<forall>i < k. describe (heap s' ! (L + 3 + 2 * i)) = Affine d d"
    using aff unfolding e .
  have 7: "\<forall>i < k. describe (heap s' ! (L + 4 + 2 * i)) = Container"
    using con unfolding e .
  have 8: "describe (heap s' ! (L + 2 * k + 3)) = Affine d n_class"
    using d2 unfolding e .
  have 9: "describe (heap s' ! (L + 2 * k + 4)) = Container"
    using d3 unfolding e .
  have "layers (k + 3) (heap s') (L + 2 * k + 4)
       = Some ([L + 1, L] @ concat (map (\<lambda>i. [L + 3 + 2 * i, L]) [0..<k]) @ [L + 2 * k + 3])"
    using lay unfolding e .
  then have 10: "network_layers s' (L + 2 * k + 4)
       = Some ([L + 1, L] @ concat (map (\<lambda>i. [L + 3 + 2 * i, L]) [0..<k]) @ [L + 2 * k + 3])"
    unfolding network_layers_def by (rule layers_fuel_mono) (simp add: 2)
  show ?thesis using 1 2 3 4 d0 5 6 7 8 9 10 by (intro exI conjI)
qed


lemma is_Linear_describe: "is_Linear m \<longleftrightarrow> (\<exists>i out. describe m = Affine i out)"
  by (cases m) auto

lemma is_activation_describe: "is_activation m \<longleftrightarrow> (\<exists>a. describe m = Activation a)"
  by (cases m) auto

lemma filter_concat_map:
  "(\<And>x. x \<in> set xs \<Longrightarrow> filter P (f x) = g x) \<Longrightarrow>
   filter P (concat (map f xs)) = concat (map g xs)"
  by (induction xs) auto

lemma map_concat_map:
  "(\<And>x. x \<in> set xs \<Longrightarrow> map h (f x) = g x) \<Longrightarrow>
   map h (concat (map f xs)) = concat (map g xs)"
  by (induction xs) auto

lemma concat_map_single: "concat (map (\<lambda>x. [f x]) xs) = map f xs"
  by (induction xs) auto

lemma concat_map_const: "concat (map (\<lambda>x. c) [0..<k]) = concat (replicate k c)"
  by (simp add: map_replicate_const)

lemma mlp_affine_layers:
  assumes "describe (heap s ! L) = Activation a"
    and "describe (heap s ! (L + 1)) = Affine i0 o0"
    and "\<forall>i < k. describe (heap s ! (L + 3 + 2 * i)) = Affine d d"
    and "describe (heap s ! (L + 2 * k + 3)) = Affine i1 o1"
  shows "affine_layers s ([L + 1, L] @ concat (map (\<lambda>i. [L + 3 + 2 * i, L]) [0..<k]) @ [L + 2 * k + 3])
    = [L + 1] @ map (\<lambda>i. L + 3 + 2 * i) [0..<k] @ [L + 2 * k + 3]"
proof -
  have "filter (\<lambda>r. is_Linear (heap s ! r)) (concat (map (\<lambda>i. [L + 3 + 2 * i, L]) [0..<k]))
      = concat (map (\<lambda>i. [L + 3 + 2 * i]) [0..<k])"
    using assms(1,3) by (intro filter_concat_map) (auto simp: is_Linear_describe)
  then have "filter (\<lambda>r. is_Linear (heap s ! r)) (concat (map (\<lambda>i. [L + 3 + 2 * i, L]) [0..<k]))
      = map (\<lambda>i. L + 3 + 2 * i) [0..<k]"
    by (simp only: concat_map_single)
  then show ?thesis
    using assms(1,2,4) by (simp add: affine_layers_def is_Linear_describe)
qed

lemma mlp_activation_layers:
  assumes "describe (heap s ! L) = Activation a"
    and "describe (heap s ! (L + 1)) = Affine i0 o0"
    and "\<forall>i < k. describe (heap s ! (L + 3 + 2 * i)) = Affine d d"
    and "describe (heap s ! (L + 2 * k + 3)) = Affine i1 o1"
  shows "activation_layers s ([L + 1, L] @ concat (map (\<lambda>i. [L + 3 + 2 * i, L]) [0..<k]) @ [L + 2 * k + 3])
    = replicate (Suc k) L"
proof -
  have "filter (\<lambda>r. is_activation (heap s ! r)) (concat (map (\<lambda>i. [L + 3 + 2 * i, L]) [0..<k]))
      = concat (map (\<lambda>i. [L]) [0..<k])"
    using assms(1,3) by (intro filter_concat_map) (auto simp: is_activation_describe)
  then have "filter (\<lambda>r. is_activation (heap s ! r)) (concat (map (\<lambda>i. [L + 3 + 2 * i, L]) [0..<k]))
      = replicate k L"
    by (simp only: concat_map_single) (simp add: map_replicate_const)
  then show ?thesis
    using assms(1,2,4) by (simp add: activation_layers_def is_activation_describe)
qed

lemma mlp_described_layers:
  assumes "describe (heap s ! L) = Activation a"
    and "describe (heap s ! (L + 1)) = Affine i0 d"
    and "\<forall>i < k. describe (heap s ! (L + 3 + 2 * i)) = Affine d d"
    and "describe (heap s ! (L + 2 * k + 3)) = Affine d o1"
  shows "map (\<lambda>r. describe (heap s ! r))
      ([L + 1, L] @ concat (map (\<lambda>i. [L + 3 + 2 * i, L]) [0..<k]) @ [L + 2 * k + 3])
    = [Affine i0 d, Activation a] @ concat (replicate k [Affine d d, Activation a]) @ [Affine d o1]"
proof -
  have "map (\<lambda>r. describe (heap s ! r)) (concat (map (\<lambda>i. [L + 3 + 2 * i, L]) [0..<k]))
      = concat (map (\<lambda>i. [Affine d d, Activation a]) [0..<k])"
    using assms(1,3) by (intro map_concat_map) auto
  then have "map (\<lambda>r. describe (heap s ! r)) (concat (map (\<lambda>i. [L + 3 + 2 * i, L]) [0..<k]))
      = concat (replicate k [Affine d d, Activation a])"
    by (simp only: concat_map_const)
  then show ?thesis using assms(1,2,4) by simp
qed

lemma chains_hidden:
  "chains d (concat (replicate k [Affine d d, Activation a]) @ ls) = chains d ls"
  by (induction k) simp_all

lemma new_address_cases:
  fixes L k r :: nat
  assumes "L + 1 \<le> r" and "r < L + 2 * k + 5"
  shows "r = L + 1 \<or> r = L + 2 \<or> (\<exists>i < k. r = L + 3 + 2 * i) \<or> (\<exists>i < k. r = L + 4 + 2 * i)
    \<or> r = L + 2 * k + 3 \<or> r = L + 2 * k + 4"
  using assms by presburger

text \<open>
  C2. The builder returns a network exactly when the activation argument is
  \<^verbatim>\<open>'tanh'\<close> or \<^verbatim>\<open>'relu'\<close>: the result is then the address of a container in the
  new store whose layer sequence runs from an affine layer on the input dimension,
  through the chosen activation, to an affine layer on the output dimension. For every
  other string, \<^verbatim>\<open>'sigmoid'\<close> among them, it raises its one error (Python's
  \<^verbatim>\<open>NotImplementedError\<close>, which the specification calls UnsupportedActivation or
  ConfigurationError).
\<close>

theorem get_multilayer_perceptron_activation:
  fixes n :: int
  shows "((activation = ''tanh'' \<or> activation = ''relu'') \<longrightarrow>
      (\<exists>net s' ls. get_multilayer_perceptron n_network n_class n d activation s = (Inr net, s')
         \<and> net < length (heap s')
         \<and> describe (heap s' ! net) = Container
         \<and> network_layers s' net = Some ls
         \<and> map (\<lambda>r. describe (heap s' ! r)) ls
             = [Affine n_network d, Activation activation]
               @ concat (replicate (nat (n - 1)) [Affine d d, Activation activation])
               @ [Affine d n_class]))
   \<and> ((activation \<noteq> ''tanh'' \<and> activation \<noteq> ''relu'') \<longrightarrow>
      fst (get_multilayer_perceptron n_network n_class n d activation s) = Inl NotImplementedError)
   \<and> fst (get_multilayer_perceptron n_network n_class n d ''sigmoid'' s) = Inl NotImplementedError"
proof (intro conjI impI)
  assume a: "activation = ''tanh'' \<or> activation = ''relu''"
  let ?L = "length (heap s)" and ?k = "nat (n - 1)"
  from get_multilayer_perceptron_network[OF a, of n_network n_class n d s]
  obtain s' where r: "get_multilayer_perceptron n_network n_class n d activation s
        = (Inr (?L + 2 * ?k + 4), s')"
    and len: "length (heap s') = ?L + 2 * ?k + 5"
    and d: "describe (heap s' ! ?L) = Activation activation"
      "describe (heap s' ! (?L + 1)) = Affine n_network d"
      "\<forall>i < ?k. describe (heap s' ! (?L + 3 + 2 * i)) = Affine d d"
      "describe (heap s' ! (?L + 2 * ?k + 3)) = Affine d n_class"
    and c: "describe (heap s' ! (?L + 2 * ?k + 4)) = Container"
    and l: "network_layers s' (?L + 2 * ?k + 4)
       = Some ([?L + 1, ?L] @ concat (map (\<lambda>i. [?L + 3 + 2 * i, ?L]) [0..<?k]) @ [?L + 2 * ?k + 3])"
    by blast
  note m = mlp_described_layers[OF d]
  have lt: "?L + 2 * ?k + 4 < length (heap s')" unfolding len by simp
  show "\<exists>net s' ls. get_multilayer_perceptron n_network n_class n d activation s = (Inr net, s')
         \<and> net < length (heap s')
         \<and> describe (heap s' ! net) = Container
         \<and> network_layers s' net = Some ls
         \<and> map (\<lambda>r. describe (heap s' ! r)) ls
             = [Affine n_network d, Activation activation]
               @ concat (replicate (nat (n - 1)) [Affine d d, Activation activation])
               @ [Affine d n_class]"
    using r lt c l m by (intro exI conjI)
qed (simp_all add: get_multilayer_perceptron_def)

theorem get_multilayer_perceptron_activation_witness:
  "(\<exists>net s' ls. get_multilayer_perceptron 1 1 1 32 ''tanh'' \<lparr>heap = [], gen = 0\<rparr> = (Inr net, s')
      \<and> net < length (heap s') \<and> describe (heap s' ! net) = Container
      \<and> network_layers s' net = Some ls
      \<and> map (\<lambda>r. describe (heap s' ! r)) ls
          = [Affine 1 32, Activation ''tanh'', Affine 32 1])
   \<and> (\<exists>net s' ls. get_multilayer_perceptron 1 1 1 32 ''relu'' \<lparr>heap = [], gen = 0\<rparr> = (Inr net, s')
      \<and> net < length (heap s') \<and> describe (heap s' ! net) = Container
      \<and> network_layers s' net = Some ls
      \<and> map (\<lambda>r. describe (heap s' ! r)) ls
          = [Affine 1 32, Activation ''relu'', Affine 32 1])
   \<and> fst (get_multilayer_perceptron 1 1 1 32 ''Tanh'' \<lparr>heap = [], gen = 0\<rparr>) = Inl NotImplementedError
   \<and> fst (get_multilayer_perceptron 1 1 1 32 ''sigmoid'' \<lparr>heap = [], gen = 0\<rparr>) = Inl NotImplementedError"
  using get_multilayer_perceptron_activation[of "''tanh''" 1 1 1 32 "\<lparr>heap = [], gen = 0\<rparr>"]
    get_multilayer_perceptron_activation[of "''relu''" 1 1 1 32 "\<lparr>heap = [], gen = 0\<rparr>"]
    get_multilayer_perceptron_activation[of "''Tanh''" 1 1 1 32 "\<lparr>heap = [], gen = 0\<rparr>"]
  by simp

text \<open>
  C1. With \<open>n_hidden_layers \<ge> 1\<close> (and any hidden width, so every width \<open>\<ge> 1\<close>) and a
  recognised activation, the builder returns a network whose layer sequence holds exactly
  \<open>n_hidden_layers + 1\<close> affine layers, all of them different objects.
\<close>

theorem get_multilayer_perceptron_affine_count:
  fixes n :: int
  assumes "1 \<le> n" and "activation = ''tanh'' \<or> activation = ''relu''"
  shows "\<exists>net s' ls.
      get_multilayer_perceptron n_network n_class n d activation s = (Inr net, s')
      \<and> network_layers s' net = Some ls
      \<and> int (length (affine_layers s' ls)) = n + 1
      \<and> distinct (affine_layers s' ls)"
proof -
  from get_multilayer_perceptron_network[OF assms(2), of n_network n_class n d s]
  obtain s' where r: "get_multilayer_perceptron n_network n_class n d activation s
        = (Inr (length (heap s) + 2 * nat (n - 1) + 4), s')"
    and d: "describe (heap s' ! length (heap s)) = Activation activation"
      "describe (heap s' ! (length (heap s) + 1)) = Affine n_network d"
      "\<forall>i < nat (n - 1). describe (heap s' ! (length (heap s) + 3 + 2 * i)) = Affine d d"
      "describe (heap s' ! (length (heap s) + 2 * nat (n - 1) + 3)) = Affine d n_class"
    and l: "network_layers s' (length (heap s) + 2 * nat (n - 1) + 4)
       = Some ([length (heap s) + 1, length (heap s)]
           @ concat (map (\<lambda>i. [length (heap s) + 3 + 2 * i, length (heap s)]) [0..<nat (n - 1)])
           @ [length (heap s) + 2 * nat (n - 1) + 3])"
    by blast
  note a = mlp_affine_layers[OF d]
  have "int (length ([length (heap s) + 1]
      @ map (\<lambda>i. length (heap s) + 3 + 2 * i) [0..<nat (n - 1)]
      @ [length (heap s) + 2 * nat (n - 1) + 3])) = n + 1"
    using assms(1) by simp
  moreover have "distinct ([length (heap s) + 1]
      @ map (\<lambda>i. length (heap s) + 3 + 2 * i) [0..<nat (n - 1)]
      @ [length (heap s) + 2 * nat (n - 1) + 3])"
    by (auto simp: distinct_map inj_on_def)
  ultimately have "int (length (affine_layers s' ([length (heap s) + 1, length (heap s)]
           @ concat (map (\<lambda>i. [length (heap s) + 3 + 2 * i, length (heap s)]) [0..<nat (n - 1)])
           @ [length (heap s) + 2 * nat (n - 1) + 3]))) = n + 1"
    and "distinct (affine_layers s' ([length (heap s) + 1, length (heap s)]
           @ concat (map (\<lambda>i. [length (heap s) + 3 + 2 * i, length (heap s)]) [0..<nat (n - 1)])
           @ [length (heap s) + 2 * nat (n - 1) + 3]))"
    unfolding a by blast+
  with r l show ?thesis by (intro exI conjI)
qed

theorem get_multilayer_perceptron_affine_count_witness:
  "\<exists>net s' ls.
      get_multilayer_perceptron 1 1 3 32 ''tanh'' \<lparr>heap = [], gen = 0\<rparr> = (Inr net, s')
      \<and> network_layers s' net = Some ls
      \<and> int (length (affine_layers s' ls)) = 4
      \<and> distinct (affine_layers s' ls)"
  using get_multilayer_perceptron_affine_count[of 3 "''tanh''" 1 1 32 "\<lparr>heap = [], gen = 0\<rparr>"]
  by simp

text \<open>
  C4. With \<open>n_hidden_layers \<ge> 1\<close> the layer sequence of the network is an affine layer
  from the input dimension to the hidden width and the activation, then
  \<open>n_hidden_layers - 1\<close> times an affine layer from the hidden width to the hidden width
  and the activation, then an affine layer from the hidden width to the output dimension
  with nothing after it; the widths chain from the input dimension to the output dimension.
\<close>

theorem get_multilayer_perceptron_layer_sequence:
  fixes n :: int
  assumes "1 \<le> n" and "activation = ''tanh'' \<or> activation = ''relu''"
  shows "\<exists>net s' ls.
      get_multilayer_perceptron n_network n_class n d activation s = (Inr net, s')
      \<and> network_layers s' net = Some ls
      \<and> map (\<lambda>r. describe (heap s' ! r)) ls
          = [Affine n_network d, Activation activation]
            @ concat (replicate (nat (n - 1)) [Affine d d, Activation activation])
            @ [Affine d n_class]
      \<and> chains n_network (map (\<lambda>r. describe (heap s' ! r)) ls) = Some n_class"
proof -
  from get_multilayer_perceptron_network[OF assms(2), of n_network n_class n d s]
  obtain s' where r: "get_multilayer_perceptron n_network n_class n d activation s
        = (Inr (length (heap s) + 2 * nat (n - 1) + 4), s')"
    and d: "describe (heap s' ! length (heap s)) = Activation activation"
      "describe (heap s' ! (length (heap s) + 1)) = Affine n_network d"
      "\<forall>i < nat (n - 1). describe (heap s' ! (length (heap s) + 3 + 2 * i)) = Affine d d"
      "describe (heap s' ! (length (heap s) + 2 * nat (n - 1) + 3)) = Affine d n_class"
    and l: "network_layers s' (length (heap s) + 2 * nat (n - 1) + 4)
       = Some ([length (heap s) + 1, length (heap s)]
           @ concat (map (\<lambda>i. [length (heap s) + 3 + 2 * i, length (heap s)]) [0..<nat (n - 1)])
           @ [length (heap s) + 2 * nat (n - 1) + 3])"
    by blast
  note m = mlp_described_layers[OF d]
  have "chains n_network ([Affine n_network d, Activation activation]
            @ concat (replicate (nat (n - 1)) [Affine d d, Activation activation])
            @ [Affine d n_class]) = Some n_class"
    by (simp add: chains_hidden)
  then have "chains n_network (map (\<lambda>r. describe (heap s' ! r))
      ([length (heap s) + 1, length (heap s)]
           @ concat (map (\<lambda>i. [length (heap s) + 3 + 2 * i, length (heap s)]) [0..<nat (n - 1)])
           @ [length (heap s) + 2 * nat (n - 1) + 3])) = Some n_class"
    unfolding m .
  with r l m show ?thesis by (intro exI conjI)
qed

theorem get_multilayer_perceptron_layer_sequence_witness:
  "\<exists>net s' ls.
      get_multilayer_perceptron 2 1 3 32 ''relu'' \<lparr>heap = [], gen = 0\<rparr> = (Inr net, s')
      \<and> network_layers s' net = Some ls
      \<and> map (\<lambda>r. describe (heap s' ! r)) ls
          = [Affine 2 32, Activation ''relu'', Affine 32 32, Activation ''relu'',
             Affine 32 32, Activation ''relu'', Affine 32 1]
      \<and> chains 2 (map (\<lambda>r. describe (heap s' ! r)) ls) = Some 1"
  using get_multilayer_perceptron_layer_sequence[of 3 "''relu''" 2 1 32 "\<lparr>heap = [], gen = 0\<rparr>"]
  by (simp add: numeral_2_eq_2)

text \<open>
  C5. With \<open>n_hidden_layers \<le> 1\<close> (zero and negative counts included) the loop body never
  runs, and the builder still allocates its five objects: the network is an affine layer
  from the input dimension to the hidden width, the activation, and an affine layer from
  the hidden width to the output dimension. It has two affine layers, not one.
\<close>

theorem get_multilayer_perceptron_no_loop_round:
  fixes n :: int
  assumes "n \<le> 1" and "activation = ''tanh'' \<or> activation = ''relu''"
  shows "(\<forall>act model st. hidden_loop (nat (n - 1)) d act model st = (model, st))
    \<and> (\<exists>net s' ls.
      get_multilayer_perceptron n_network n_class n d activation s = (Inr net, s')
      \<and> length (heap s') = length (heap s) + 5
      \<and> network_layers s' net = Some ls
      \<and> map (\<lambda>r. describe (heap s' ! r)) ls
          = [Affine n_network d, Activation activation, Affine d n_class]
      \<and> length (affine_layers s' ls) = 2)"
proof
  from assms(1) have k: "nat (n - 1) = 0" by simp
  show "\<forall>act model st. hidden_loop (nat (n - 1)) d act model st = (model, st)"
    by (simp add: k)
  from get_multilayer_perceptron_network[OF assms(2), of n_network n_class n d s]
  obtain s' where r: "get_multilayer_perceptron n_network n_class n d activation s
        = (Inr (length (heap s) + 2 * nat (n - 1) + 4), s')"
    and len: "length (heap s') = length (heap s) + 2 * nat (n - 1) + 5"
    and d: "describe (heap s' ! length (heap s)) = Activation activation"
      "describe (heap s' ! (length (heap s) + 1)) = Affine n_network d"
      "\<forall>i < nat (n - 1). describe (heap s' ! (length (heap s) + 3 + 2 * i)) = Affine d d"
      "describe (heap s' ! (length (heap s) + 2 * nat (n - 1) + 3)) = Affine d n_class"
    and l: "network_layers s' (length (heap s) + 2 * nat (n - 1) + 4)
       = Some ([length (heap s) + 1, length (heap s)]
           @ concat (map (\<lambda>i. [length (heap s) + 3 + 2 * i, length (heap s)]) [0..<nat (n - 1)])
           @ [length (heap s) + 2 * nat (n - 1) + 3])"
    by blast
  have ls: "network_layers s' (length (heap s) + 4)
      = Some [length (heap s) + 1, length (heap s), length (heap s) + 3]"
    using l by (simp add: k)
  have "map (\<lambda>r. describe (heap s' ! r)) [length (heap s) + 1, length (heap s), length (heap s) + 3]
      = [Affine n_network d, Activation activation, Affine d n_class]"
    using d(1,2,4) by (simp add: k)
  moreover have "length (affine_layers s' [length (heap s) + 1, length (heap s), length (heap s) + 3]) = 2"
    using d(1,2,4) by (simp add: k affine_layers_def is_Linear_describe)
  ultimately show "\<exists>net s' ls.
      get_multilayer_perceptron n_network n_class n d activation s = (Inr net, s')
      \<and> length (heap s') = length (heap s) + 5
      \<and> network_layers s' net = Some ls
      \<and> map (\<lambda>r. describe (heap s' ! r)) ls
          = [Affine n_network d, Activation activation, Affine d n_class]
      \<and> length (affine_layers s' ls) = 2"
    using r len ls by (simp add: k)
qed

theorem get_multilayer_perceptron_no_loop_round_witness:
  "(\<forall>act model st. hidden_loop (nat (0 - 1)) 32 act model st = (model, st))
    \<and> (\<exists>net s' ls.
      get_multilayer_perceptron 1 1 0 32 ''tanh'' \<lparr>heap = [], gen = 0\<rparr> = (Inr net, s')
      \<and> length (heap s') = 5
      \<and> network_layers s' net = Some ls
      \<and> map (\<lambda>r. describe (heap s' ! r)) ls
          = [Affine 1 32, Activation ''tanh'', Affine 32 1]
      \<and> length (affine_layers s' ls) = 2)"
  using get_multilayer_perceptron_no_loop_round[of 0 "''tanh''" 32 1 1 "\<lparr>heap = [], gen = 0\<rparr>"]
  by simp

text \<open>
  C10. The builder allocates one activation object, before anything else, and every
  activation position of the layer sequence refers to that object: among the objects the
  call allocates, the one at the first new address is the only activation, and the
  activation positions of the network, one for each affine layer but the last, all hold
  that address.
\<close>

theorem get_multilayer_perceptron_shared_activation:
  fixes n :: int
  assumes "activation = ''tanh'' \<or> activation = ''relu''"
  shows "\<exists>net s' ls.
      get_multilayer_perceptron n_network n_class n d activation s = (Inr net, s')
      \<and> network_layers s' net = Some ls
      \<and> describe (heap s' ! length (heap s)) = Activation activation
      \<and> activation_layers s' ls = replicate (Suc (nat (n - 1))) (length (heap s))
      \<and> (\<forall>r. length (heap s) \<le> r \<and> r < length (heap s') \<and> is_activation (heap s' ! r)
            \<longrightarrow> r = length (heap s))"
proof -
  let ?L = "length (heap s)" and ?k = "nat (n - 1)"
  from get_multilayer_perceptron_network[OF assms, of n_network n_class n d s]
  obtain s' where r: "get_multilayer_perceptron n_network n_class n d activation s
        = (Inr (?L + 2 * ?k + 4), s')"
    and len: "length (heap s') = ?L + 2 * ?k + 5"
    and d: "describe (heap s' ! ?L) = Activation activation"
      "describe (heap s' ! (?L + 1)) = Affine n_network d"
      "\<forall>i < ?k. describe (heap s' ! (?L + 3 + 2 * i)) = Affine d d"
      "describe (heap s' ! (?L + 2 * ?k + 3)) = Affine d n_class"
    and c: "describe (heap s' ! (?L + 2)) = Container"
      "\<forall>i < ?k. describe (heap s' ! (?L + 4 + 2 * i)) = Container"
      "describe (heap s' ! (?L + 2 * ?k + 4)) = Container"
    and l: "network_layers s' (?L + 2 * ?k + 4)
       = Some ([?L + 1, ?L] @ concat (map (\<lambda>i. [?L + 3 + 2 * i, ?L]) [0..<?k]) @ [?L + 2 * ?k + 3])"
    by blast
  note a = mlp_activation_layers[OF d]
  have only: "r = ?L"
    if lo: "?L \<le> r" and hi: "r < length (heap s')" and act: "is_activation (heap s' ! r)" for r
  proof (rule ccontr)
    assume "r \<noteq> ?L"
    with lo have "?L + 1 \<le> r" by simp
    from act obtain x where x: "describe (heap s' ! r) = Activation x"
      by (auto simp: is_activation_describe)
    consider "r = ?L + 1" | "r = ?L + 2"
      | i where "r = ?L + 3 + 2 * i" "i < ?k" | i where "r = ?L + 4 + 2 * i" "i < ?k"
      | "r = ?L + 2 * ?k + 3" | "r = ?L + 2 * ?k + 4"
    proof -
      have "r = ?L + 1 \<or> r = ?L + 2 \<or> (\<exists>i < ?k. r = ?L + 3 + 2 * i) \<or> (\<exists>i < ?k. r = ?L + 4 + 2 * i)
          \<or> r = ?L + 2 * ?k + 3 \<or> r = ?L + 2 * ?k + 4"
        using \<open>?L + 1 \<le> r\<close> hi unfolding len by (rule new_address_cases)
      then show thesis using that by blast
    qed
    then show False using x d c by cases auto
  qed
  have "\<forall>r. ?L \<le> r \<and> r < length (heap s') \<and> is_activation (heap s' ! r) \<longrightarrow> r = ?L"
    using only by blast
  with r l d(1) a show ?thesis by (intro exI conjI)
qed

theorem get_multilayer_perceptron_shared_activation_witness:
  "\<exists>net s' ls.
      get_multilayer_perceptron 1 1 6 32 ''tanh'' \<lparr>heap = [], gen = 0\<rparr> = (Inr net, s')
      \<and> network_layers s' net = Some ls
      \<and> describe (heap s' ! 0) = Activation ''tanh''
      \<and> activation_layers s' ls = [0, 0, 0, 0, 0, 0]
      \<and> (\<forall>r. r < length (heap s') \<and> is_activation (heap s' ! r) \<longrightarrow> r = 0)"
  using get_multilayer_perceptron_shared_activation[of "''tanh''" 1 1 6 32 "\<lparr>heap = [], gen = 0\<rparr>"]
  by (simp add: numeral_eq_Suc)

section \<open>Facts about init_weights\<close>

lemma fill_vec_result:
  "fill_vec d g v = (map (Draw d) [g ..< g + length v], g + length v)"
  by (simp add: fill_vec_def)

lemma fill_mat_result:
  "fill_mat d g w = (w', g') \<Longrightarrow>
   concat w' = map (Draw d) [g ..< g + length (concat w)]
   \<and> g' = g + length (concat w) \<and> map length w' = map length w"
proof (induction w arbitrary: g w' g')
  case Nil
  then show ?case by simp
next
  case (Cons row rows)
  obtain rows' g2 where r: "fill_mat d (g + length row) rows = (rows', g2)"
    by (cases "fill_mat d (g + length row) rows") simp
  from Cons.prems r have w': "w' = map (Draw d) [g ..< g + length row] # rows'" and g': "g' = g2"
    by (simp_all add: fill_vec_def)
  from Cons.IH[OF r] have
    c: "concat rows' = map (Draw d) [g + length row ..< g + length row + length (concat rows)]"
    and g2: "g2 = g + length row + length (concat rows)"
    and l: "map length rows' = map length rows"
    by simp_all
  have "[g ..< g + length row + length (concat rows)]
      = [g ..< g + length row] @ [g + length row ..< g + length row + length (concat rows)]"
    by (rule upt_add_eq_append) simp
  then have "[g ..< g + (length row + length (concat rows))]
      = [g ..< g + length row] @ [g + length row ..< g + length row + length (concat rows)]"
    by (simp only: add.assoc)
  then show ?case by (simp add: w' g' c g2 l)
qed

lemma init_weights_Linear:
  assumes "heap s ! m = Linear i out w b"
  shows "\<exists>w' b'. init_weights m s
        = \<lparr>heap = (heap s)[m := Linear i out w' b'], gen = gen s + length (concat w) + length b\<rparr>
      \<and> map length w' = map length w \<and> length b' = length b
      \<and> concat w' @ b'
          = map (Draw (Normal 0 0.5)) [gen s ..< gen s + length (concat w) + length b]"
proof -
  obtain w' g1 where f: "fill_mat (Normal 0 0.5) (gen s) w = (w', g1)"
    by (cases "fill_mat (Normal 0 0.5) (gen s) w") simp
  note r = fill_mat_result[OF f]
  define b' where "b' = map (Draw (Normal 0 0.5))
      [gen s + length (concat w) ..< gen s + length (concat w) + length b]"
  have split: "[gen s ..< gen s + length (concat w) + length b]
      = [gen s ..< gen s + length (concat w)]
        @ [gen s + length (concat w) ..< gen s + length (concat w) + length b]"
    by (rule upt_add_eq_append) simp
  have 1: "init_weights m s
      = \<lparr>heap = (heap s)[m := Linear i out w' b'], gen = gen s + length (concat w) + length b\<rparr>"
    using assms f r
    by (simp add: init_weights_def normal_mat_def normal_vec_def fill_vec_def b'_def)
  have 2: "map length w' = map length w" using r by simp
  have 3: "length b' = length b" by (simp add: b'_def)
  have 4: "concat w' @ b'
      = map (Draw (Normal 0 0.5)) [gen s ..< gen s + length (concat w) + length b]"
    unfolding split using r by (simp add: b'_def)
  show ?thesis using 1 2 3 4 by (intro exI conjI)
qed

lemma init_weights_other: "\<not> is_Linear (heap s ! m) \<Longrightarrow> init_weights m s = s"
  by (cases "heap s ! m") (simp_all add: init_weights_def)


subsection \<open>What erase keeps\<close>

lemma map_const_replicate:
  "map (map (\<lambda>x. c)) v = map (\<lambda>n. replicate n c) (map length v)"
  by (simp add: map_replicate_const comp_def)

lemma map_const_shape:
  assumes "map length w' = map length w"
  shows "map (map (\<lambda>x. c)) w' = map (map (\<lambda>x. c)) w"
  unfolding map_const_replicate assms ..

lemma erase_Linear_shape:
  "map length w' = map length w \<Longrightarrow> length b' = length b \<Longrightarrow>
   erase (Linear i out w' b') = erase (Linear i out w b)"
  using map_const_shape[of w' w Empty] by (simp add: map_replicate_const)

lemma children_erase: "children (erase x) = children x"
  by (cases x) simp_all

lemma describe_erase: "describe (erase x) = describe x"
  by (cases x) simp_all

lemma shape_erase: "shape (erase x) = shape x"
  by (cases x) (simp_all add: comp_def)

lemma is_Linear_erase: "is_Linear (erase x) = is_Linear x"
  by (cases x) simp_all

lemma erase_other: "erase y = erase x \<Longrightarrow> \<not> is_Linear x \<Longrightarrow> y = x"
  by (cases x; cases y) simp_all

lemma erase_length: "map erase h' = map erase h \<Longrightarrow> length h' = length h"
  using length_map[of erase h'] length_map[of erase h] by simp

lemma erase_nth:
  assumes "map erase h' = map erase h" and "r < length h"
  shows "erase (h' ! r) = erase (h ! r)"
proof -
  have "length h' = length h" using assms(1) by (rule erase_length)
  then have "erase (h' ! r) = map erase h' ! r" using assms(2) by simp
  also have "\<dots> = map erase h ! r" by (simp only: assms(1))
  also have "\<dots> = erase (h ! r)" using assms(2) by simp
  finally show ?thesis .
qed

lemma erase_children:
  "map erase h' = map erase h \<Longrightarrow> r < length h \<Longrightarrow> children (h' ! r) = children (h ! r)"
  using erase_nth[of h' h r] children_erase[of "h' ! r"] children_erase[of "h ! r"] by simp

lemma erase_is_Linear:
  "map erase h' = map erase h \<Longrightarrow> r < length h \<Longrightarrow> is_Linear (h' ! r) = is_Linear (h ! r)"
  using erase_nth[of h' h r] is_Linear_erase[of "h' ! r"] is_Linear_erase[of "h ! r"] by simp

lemma wf_heap_iff:
  "wf_heap h \<longleftrightarrow> (\<forall>r < length h. \<forall>c \<in> set (children (h ! r)). c < r)"
  by (auto simp: wf_heap_def list_all_iff)

lemma erase_wf_heap:
  assumes "map erase h' = map erase h" and "wf_heap h"
  shows "wf_heap h'"
  unfolding wf_heap_iff
proof (intro allI impI ballI)
  fix r c assume "r < length h'" and c: "c \<in> set (children (h' ! r))"
  then have r: "r < length h" using erase_length[OF assms(1)] by simp
  with c have "c \<in> set (children (h ! r))" using erase_children[OF assms(1)] by simp
  with r assms(2) show "c < r" unfolding wf_heap_iff by blast
qed

lemma erase_reach:
  assumes e: "map erase h' = map erase h" and r: "reach h r m"
  shows "reach h' r m"
  using r
proof (induction rule: reach.induct)
  case (self r)
  then show ?case using erase_length[OF e] by (simp add: reach.self)
next
  case (child r c m)
  have "r < length h'" using child.hyps(1) erase_length[OF e] by simp
  moreover have "c \<in> set (children (h' ! r))"
    using child.hyps(1,2) erase_children[OF e] by simp
  ultimately show ?case using child.IH by (rule reach.child)
qed

lemma reach_bound: "reach h r m \<Longrightarrow> r < length h \<and> m < length h"
  by (induction rule: reach.induct) simp_all

lemma init_weights_erase:
  assumes "m < length (heap s)"
  shows "map erase (heap (init_weights m s)) = map erase (heap s)"
proof (cases "is_Linear (heap s ! m)")
  case False
  then show ?thesis by (simp add: init_weights_other)
next
  case True
  then obtain i out w b where l: "heap s ! m = Linear i out w b"
    by (cases "heap s ! m") auto
  from init_weights_Linear[OF l] obtain w' b' where
    iw: "init_weights m s
        = \<lparr>heap = (heap s)[m := Linear i out w' b'], gen = gen s + length (concat w) + length b\<rparr>"
    and sh: "map length w' = map length w" "length b' = length b"
    by blast
  have h: "heap (init_weights m s) = (heap s)[m := Linear i out w' b']"
    by (simp add: iw)
  have "map erase ((heap s)[m := Linear i out w' b'])
      = (map erase (heap s))[m := erase (Linear i out w' b')]"
    by (rule map_update)
  also have "\<dots> = (map erase (heap s))[m := map erase (heap s) ! m]"
    using erase_Linear_shape[OF sh, of i out] assms by (simp add: l)
  also have "\<dots> = map erase (heap s)" by (rule list_update_id)
  finally show ?thesis by (simp only: h)
qed

lemma init_weights_gen: "gen s \<le> gen (init_weights m s)"
proof (cases "is_Linear (heap s ! m)")
  case False
  then show ?thesis by (simp add: init_weights_other)
next
  case True
  then obtain i out w b where l: "heap s ! m = Linear i out w b"
    by (cases "heap s ! m") auto
  from init_weights_Linear[OF l] obtain w' b' where
    "init_weights m s
        = \<lparr>heap = (heap s)[m := Linear i out w' b'], gen = gen s + length (concat w) + length b\<rparr>"
    by blast
  then show ?thesis by simp
qed


subsection \<open>Entries written by init_weights\<close>

lemma fresh_block_mono:
  assumes "fresh_block lo hi xs" and "lo' \<le> lo" and "hi \<le> hi'"
  shows "fresh_block lo' hi' xs"
proof -
  from assms(1) obtain g where g: "lo \<le> g" "g \<le> hi" "g + length xs \<le> hi"
    and xs: "xs = map (Draw (Normal 0 0.5)) [g ..< g + length xs]"
    unfolding fresh_block_def by auto
  have "g \<in> {lo' .. hi'}" "g + length xs \<le> hi'" using g assms(2,3) by simp_all
  with xs show ?thesis unfolding fresh_block_def by (intro bexI[of _ g] conjI)
qed

lemma reinitialised_mono:
  assumes "reinitialised lo hi x" and "lo' \<le> lo" and "hi \<le> hi'"
  shows "reinitialised lo' hi' x"
proof (cases x)
  case (Linear i out w b)
  with assms show ?thesis by (auto intro: fresh_block_mono)
qed (use assms in simp_all)

lemma fresh_block_upt: "fresh_block g (g + n) (map (Draw (Normal 0 0.5)) [g ..< g + n])"
  unfolding fresh_block_def by (intro bexI[of _ g]) simp_all

lemma init_weights_reinitialises:
  assumes "m < length (heap s)" and "is_Linear (heap s ! m)"
  shows "reinitialised (gen s) (gen (init_weights m s)) (heap (init_weights m s) ! m)"
proof -
  from assms(2) obtain i out w b where l: "heap s ! m = Linear i out w b"
    by (cases "heap s ! m") auto
  from init_weights_Linear[OF l] obtain w' b' where
    iw: "init_weights m s
        = \<lparr>heap = (heap s)[m := Linear i out w' b'], gen = gen s + length (concat w) + length b\<rparr>"
    and e: "concat w' @ b'
          = map (Draw (Normal 0 0.5)) [gen s ..< gen s + length (concat w) + length b]"
    by blast
  have "fresh_block (gen s) (gen s + (length (concat w) + length b))
      (map (Draw (Normal 0 0.5)) [gen s ..< gen s + (length (concat w) + length b)])"
    by (rule fresh_block_upt)
  then have "fresh_block (gen s) (gen s + length (concat w) + length b) (concat w' @ b')"
    unfolding e by (simp only: add.assoc)
  then have "reinitialised (gen s) (gen s + length (concat w) + length b) (Linear i out w' b')"
    by simp
  then show ?thesis using assms(1) by (simp add: iw)
qed

lemma init_weights_nth_other:
  "r \<noteq> m \<Longrightarrow> heap (init_weights r s) ! m = heap s ! m"
  by (cases "heap s ! r") (simp_all add: init_weights_def split: prod.splits)

lemma init_weights_keeps_reinitialised:
  assumes "m < length (heap s)" and "g \<le> gen s"
    and "reinitialised g (gen s) (heap s ! m)"
  shows "reinitialised g (gen (init_weights r s)) (heap (init_weights r s) ! m)"
proof (cases "r = m")
  case True
  from assms(3) have "is_Linear (heap s ! m)" by (cases "heap s ! m") simp_all
  from init_weights_reinitialises[OF assms(1) this] assms(2) show ?thesis
    unfolding True by (rule reinitialised_mono) simp
next
  case False
  then have "heap (init_weights r s) ! m = heap s ! m" by (rule init_weights_nth_other)
  with assms(3) init_weights_gen[of s r] show ?thesis
    by (auto intro: reinitialised_mono)
qed

subsection \<open>What the traversal keeps\<close>

lemma apply_keeps:
  "module_apply fn n r s = Some s' \<Longrightarrow> fn = init_weights \<Longrightarrow>
     map erase (heap s') = map erase (heap s) \<and> gen s \<le> gen s'
     \<and> (\<forall>m g. m < length (heap s) \<longrightarrow> g \<le> gen s \<longrightarrow> reinitialised g (gen s) (heap s ! m)
           \<longrightarrow> reinitialised g (gen s') (heap s' ! m))"
  "apply_children fn n cs s = Some s' \<Longrightarrow> fn = init_weights \<Longrightarrow>
     map erase (heap s') = map erase (heap s) \<and> gen s \<le> gen s'
     \<and> (\<forall>m g. m < length (heap s) \<longrightarrow> g \<le> gen s \<longrightarrow> reinitialised g (gen s) (heap s ! m)
           \<longrightarrow> reinitialised g (gen s') (heap s' ! m))"
proof (induction fn n r s and fn n cs s arbitrary: s' and s'
    rule: module_apply_apply_children.induct)
  case (1 fn m s)
  then show ?case by simp
next
  case (2 fn n r s)
  from "2.prems"(1) obtain s1 where r: "r < length (heap s)"
    and c: "apply_children fn n (children (heap s ! r)) s = Some s1"
    and s': "s' = fn r s1"
    by (auto split: if_splits option.splits)
  from "2.IH"[OF r c "2.prems"(2)] have
    e1: "map erase (heap s1) = map erase (heap s)" and g1: "gen s \<le> gen s1"
    and k1: "\<And>m g. m < length (heap s) \<Longrightarrow> g \<le> gen s \<Longrightarrow> reinitialised g (gen s) (heap s ! m)
           \<Longrightarrow> reinitialised g (gen s1) (heap s1 ! m)"
    by blast+
  have len1: "length (heap s1) = length (heap s)" using e1 by (rule erase_length)
  have s'': "s' = init_weights r s1" using s' "2.prems"(2) by simp
  have "map erase (heap s') = map erase (heap s)"
    unfolding s'' using init_weights_erase[of r s1] r len1 e1 by simp
  moreover have "gen s \<le> gen s'"
    unfolding s'' using g1 init_weights_gen[of s1 r] by simp
  moreover have "reinitialised g (gen s') (heap s' ! m)"
    if "m < length (heap s)" "g \<le> gen s" "reinitialised g (gen s) (heap s ! m)" for m g
    unfolding s''
    using that k1[OF that] g1 len1 by (intro init_weights_keeps_reinitialised) simp_all
  ultimately show ?case by blast
next
  case (3 fn n s)
  then show ?case by simp
next
  case (4 fn n c cs s)
  from "4.prems"(1) obtain s1 where a: "module_apply fn n c s = Some s1"
    and b: "apply_children fn n cs s1 = Some s'"
    by (auto split: option.splits)
  from "4.IH"(1)[OF a "4.prems"(2)] have
    e1: "map erase (heap s1) = map erase (heap s)" and g1: "gen s \<le> gen s1"
    and k1: "\<And>m g. m < length (heap s) \<Longrightarrow> g \<le> gen s \<Longrightarrow> reinitialised g (gen s) (heap s ! m)
           \<Longrightarrow> reinitialised g (gen s1) (heap s1 ! m)"
    by blast+
  from "4.IH"(2)[OF a b "4.prems"(2)] have
    e2: "map erase (heap s') = map erase (heap s1)" and g2: "gen s1 \<le> gen s'"
    and k2: "\<And>m g. m < length (heap s1) \<Longrightarrow> g \<le> gen s1 \<Longrightarrow> reinitialised g (gen s1) (heap s1 ! m)
           \<Longrightarrow> reinitialised g (gen s') (heap s' ! m)"
    by blast+
  have len1: "length (heap s1) = length (heap s)" using e1 by (rule erase_length)
  have "reinitialised g (gen s') (heap s' ! m)"
    if "m < length (heap s)" "g \<le> gen s" "reinitialised g (gen s) (heap s ! m)" for m g
    using that k1[OF that] g1 len1 by (intro k2) simp_all
  then show ?case using e1 e2 g1 g2 by simp
qed


lemma apply_reaches:
  "module_apply fn n r s = Some s' \<Longrightarrow> fn = init_weights \<Longrightarrow>
     reach (heap s) r m \<Longrightarrow> is_Linear (heap s ! m) \<Longrightarrow>
     reinitialised (gen s) (gen s') (heap s' ! m)"
  "apply_children fn n cs s = Some s' \<Longrightarrow> fn = init_weights \<Longrightarrow>
     c \<in> set cs \<Longrightarrow> reach (heap s) c m \<Longrightarrow> is_Linear (heap s ! m) \<Longrightarrow>
     reinitialised (gen s) (gen s') (heap s' ! m)"
proof (induction fn n r s and fn n cs s arbitrary: s' m and s' c m
    rule: module_apply_apply_children.induct)
  case (1 fn m s)
  then show ?case by simp
next
  case (2 fn n r s)
  from "2.prems"(1) obtain s1 where r: "r < length (heap s)"
    and c: "apply_children fn n (children (heap s ! r)) s = Some s1"
    and s': "s' = fn r s1"
    by (auto split: if_splits option.splits)
  have s'': "s' = init_weights r s1" using s' "2.prems"(2) by simp
  from apply_keeps(2)[OF c "2.prems"(2)] have
    e1: "map erase (heap s1) = map erase (heap s)" and g1: "gen s \<le> gen s1"
    by blast+
  have len1: "length (heap s1) = length (heap s)" using e1 by (rule erase_length)
  have m: "m < length (heap s)" using reach_bound[OF "2.prems"(3)] by simp
  from "2.prems"(3) show ?case
  proof (cases rule: reach.cases)
    case self
    have "is_Linear (heap s1 ! r)"
      using "2.prems"(4) erase_is_Linear[OF e1 r] self(1) by simp
    with r len1 have "reinitialised (gen s1) (gen s') (heap s' ! r)"
      unfolding s'' by (intro init_weights_reinitialises) simp_all
    then have "reinitialised (gen s1) (gen s') (heap s' ! m)" using self(1) by simp
    then show ?thesis using g1 by (rule reinitialised_mono) simp
  next
    case (child c)
    from "2.IH"[OF r c "2.prems"(2) child(2,3) "2.prems"(4)]
    have "reinitialised (gen s) (gen s1) (heap s1 ! m)" .
    with m len1 g1 show ?thesis
      unfolding s'' by (intro init_weights_keeps_reinitialised) simp_all
  qed
next
  case (3 fn n s)
  then show ?case by simp
next
  case (4 fn n c0 cs s)
  from "4.prems"(1) obtain s1 where a: "module_apply fn n c0 s = Some s1"
    and b: "apply_children fn n cs s1 = Some s'"
    by (auto split: option.splits)
  from apply_keeps(1)[OF a "4.prems"(2)] have
    e1: "map erase (heap s1) = map erase (heap s)" and g1: "gen s \<le> gen s1"
    by blast+
  from apply_keeps(2)[OF b "4.prems"(2)] have g2: "gen s1 \<le> gen s'"
    and k2: "\<And>m g. m < length (heap s1) \<Longrightarrow> g \<le> gen s1 \<Longrightarrow> reinitialised g (gen s1) (heap s1 ! m)
           \<Longrightarrow> reinitialised g (gen s') (heap s' ! m)"
    by blast+
  have len1: "length (heap s1) = length (heap s)" using e1 by (rule erase_length)
  have m: "m < length (heap s)" using reach_bound[OF "4.prems"(4)] by simp
  show ?case
  proof (cases "c \<in> set cs")
    case True
    have "reach (heap s1) c m" using e1 "4.prems"(4) by (rule erase_reach)
    moreover have "is_Linear (heap s1 ! m)"
      using "4.prems"(5) erase_is_Linear[OF e1 m] by simp
    ultimately have "reinitialised (gen s1) (gen s') (heap s' ! m)"
      using "4.IH"(2)[OF a b "4.prems"(2) True] by simp
    then show ?thesis using g1 by (rule reinitialised_mono) simp
  next
    case False
    with "4.prems"(3) have "c = c0" by simp
    with "4.IH"(1)[OF a "4.prems"(2) _ "4.prems"(5)] "4.prems"(4)
    have "reinitialised (gen s) (gen s1) (heap s1 ! m)" by simp
    with m len1 g1 show ?thesis by (intro k2) simp_all
  qed
qed

subsection \<open>The traversal finishes on stores built by constructors\<close>

lemma apply_children_total:
  assumes "\<And>c s. c \<in> set cs \<Longrightarrow> wf_heap (heap s) \<Longrightarrow> length (heap s) = N
      \<Longrightarrow> \<exists>s'. module_apply init_weights n c s = Some s'"
    and "wf_heap (heap s)" and "length (heap s) = N"
  shows "\<exists>s'. apply_children init_weights n cs s = Some s'"
  using assms
proof (induction cs arbitrary: s)
  case Nil
  then show ?case by simp
next
  case (Cons c cs)
  from Cons.prems(1)[of c s] Cons.prems(2,3)
  obtain s1 where a: "module_apply init_weights n c s = Some s1" by auto
  from apply_keeps(1)[OF a] have e1: "map erase (heap s1) = map erase (heap s)" by simp
  have "wf_heap (heap s1)" using e1 Cons.prems(2) by (rule erase_wf_heap)
  moreover have "length (heap s1) = N" using erase_length[OF e1] Cons.prems(3) by simp
  ultimately obtain s' where "apply_children init_weights n cs s1 = Some s'"
    using Cons.IH[of s1] Cons.prems(1) by auto
  with a show ?case by simp
qed

lemma module_apply_total:
  "wf_heap (heap s) \<Longrightarrow> r < length (heap s) \<Longrightarrow> r < n \<Longrightarrow>
   \<exists>s'. module_apply init_weights n r s = Some s'"
proof (induction n arbitrary: r s)
  case 0
  then show ?case by simp
next
  case (Suc n)
  have below: "c < r" if "c \<in> set (children (heap s ! r))" for c
    using Suc.prems(1,2) that unfolding wf_heap_iff by blast
  have "\<exists>s'. module_apply init_weights n c t = Some s'"
    if "c \<in> set (children (heap s ! r))" "wf_heap (heap t)" "length (heap t) = length (heap s)"
    for c t
    using below[OF that(1)] Suc.prems(2,3) that(2,3) by (intro Suc.IH) simp_all
  then obtain s1 where "apply_children init_weights n (children (heap s ! r)) s = Some s1"
    using apply_children_total[of "children (heap s ! r)" "length (heap s)" n s] Suc.prems(1)
    by blast
  with Suc.prems(2) show ?case by simp
qed

lemma apply_init_weights_total:
  "wf_heap (heap s) \<Longrightarrow> net < length (heap s) \<Longrightarrow> \<exists>s'. apply_init_weights net s = Some s'"
  unfolding apply_init_weights_def by (rule module_apply_total)

lemma runs_erase:
  "wf_heap (heap s) \<Longrightarrow> net < length (heap s) \<Longrightarrow>
   \<exists>s'. runs nruns net s = Some s' \<and> map erase (heap s') = map erase (heap s)"
proof (induction nruns arbitrary: s)
  case 0
  then show ?case by simp
next
  case (Suc nruns)
  from apply_init_weights_total[OF Suc.prems] obtain s1 where
    a: "apply_init_weights net s = Some s1" by blast
  then have e1: "map erase (heap s1) = map erase (heap s)"
    unfolding apply_init_weights_def using apply_keeps(1) by blast
  have "wf_heap (heap s1)" using e1 Suc.prems(1) by (rule erase_wf_heap)
  moreover have "net < length (heap s1)" using erase_length[OF e1] Suc.prems(2) by simp
  ultimately obtain s' where "runs nruns net s1 = Some s'"
    and "map erase (heap s') = map erase (heap s1)"
    using Suc.IH by blast
  with a e1 show ?case by simp
qed

lemma map_shape_erase: "map shape (map erase h) = map shape h"
  by (simp add: shape_erase)

section \<open>Properties of init_weights and of the traversal\<close>

text \<open>
  C3. Called on an affine layer, \<open>init_weights\<close> overwrites every entry of the weight and
  of the bias: read row by row, weight first, the entries are the next draws of the
  generator, one draw for each entry and no draw used twice, each asked from the normal
  distribution with mean \<open>0\<close> and standard deviation \<open>0.5\<close>. (That successive draws of
  the library's generator are independent is a property of the library.)
\<close>

theorem init_weights_overwrites_every_entry:
  assumes "heap s ! m = Linear i out w b" and "m < length (heap s)"
  shows "\<exists>w' b'. heap (init_weights m s) ! m = Linear i out w' b'
      \<and> map length w' = map length w \<and> length b' = length b
      \<and> gen (init_weights m s) = gen s + length (concat w) + length b
      \<and> concat w' @ b' = map (Draw (Normal 0 0.5)) [gen s ..< gen (init_weights m s)]
      \<and> distinct (concat w' @ b')"
proof -
  from init_weights_Linear[OF assms(1)] obtain w' b' where
    iw: "init_weights m s
        = \<lparr>heap = (heap s)[m := Linear i out w' b'], gen = gen s + length (concat w) + length b\<rparr>"
    and sh: "map length w' = map length w" "length b' = length b"
    and e: "concat w' @ b'
          = map (Draw (Normal 0 0.5)) [gen s ..< gen s + length (concat w) + length b]"
    by blast
  have 1: "heap (init_weights m s) ! m = Linear i out w' b'" using assms(2) by (simp add: iw)
  have 2: "gen (init_weights m s) = gen s + length (concat w) + length b" by (simp add: iw)
  have 3: "concat w' @ b' = map (Draw (Normal 0 0.5)) [gen s ..< gen (init_weights m s)]"
    unfolding 2 by (rule e)
  have 4: "distinct (concat w' @ b')"
    unfolding e by (simp add: distinct_map inj_on_def)
  show ?thesis using 1 sh 2 3 4 by (intro exI conjI)
qed

theorem init_weights_overwrites_every_entry_witness:
  "\<exists>w' b'. heap (init_weights 1
        \<lparr>heap = [Tanh, Linear 2 1 [[Empty, Draw Library_default 3]] [Empty]], gen = 5\<rparr>) ! 1
        = Linear 2 1 w' b'
      \<and> map length w' = [2] \<and> length b' = 1
      \<and> gen (init_weights 1
          \<lparr>heap = [Tanh, Linear 2 1 [[Empty, Draw Library_default 3]] [Empty]], gen = 5\<rparr>) = 8
      \<and> concat w' @ b' = map (Draw (Normal 0 0.5)) [5 ..< gen (init_weights 1
          \<lparr>heap = [Tanh, Linear 2 1 [[Empty, Draw Library_default 3]] [Empty]], gen = 5\<rparr>)]
      \<and> distinct (concat w' @ b')"
  using init_weights_overwrites_every_entry[of
      "\<lparr>heap = [Tanh, Linear 2 1 [[Empty, Draw Library_default 3]] [Empty]], gen = 5\<rparr>"
      1 2 1 "[[Empty, Draw Library_default 3]]" "[Empty]"]
  by (simp add: numeral_2_eq_2)

text \<open>
  C6. In a store built by constructors, \<^verbatim>\<open>net.apply(init_weights)\<close> finishes, and every
  affine layer that is the network itself or sits at any depth below it has been
  re-initialised by the call: it is still an affine layer of the same widths, its weight
  and bias have the shapes they had, and their entries, weight first, are consecutive
  normal draws with mean \<open>0\<close> and standard deviation \<open>0.5\<close>, one for each entry, which
  the generator made during the call.
\<close>

theorem apply_init_weights_reaches_every_Linear:
  assumes "wf_heap (heap s)" and "reach (heap s) net m" and "heap s ! m = Linear i out w b"
  shows "\<exists>s' w' b' g. apply_init_weights net s = Some s'
      \<and> heap s' ! m = Linear i out w' b'
      \<and> map length w' = map length w \<and> length b' = length b
      \<and> gen s \<le> g \<and> g + (length (concat w) + length b) \<le> gen s'
      \<and> concat w' @ b'
          = map (Draw (Normal 0 0.5)) [g ..< g + (length (concat w) + length b)]"
proof -
  have net: "net < length (heap s)" and m: "m < length (heap s)"
    using reach_bound[OF assms(2)] by simp_all
  from assms(1) net obtain s' where a: "apply_init_weights net s = Some s'"
    using apply_init_weights_total by blast
  have lin: "is_Linear (heap s ! m)" by (simp add: assms(3))
  have re: "reinitialised (gen s) (gen s') (heap s' ! m)"
    using a assms(2) lin unfolding apply_init_weights_def
    by (intro apply_reaches(1)) simp_all
  have e: "map erase (heap s') = map erase (heap s)"
    using a unfolding apply_init_weights_def using apply_keeps(1) by blast
  have em: "erase (heap s' ! m) = erase (Linear i out w b)"
    using erase_nth[OF e m] by (simp add: assms(3))
  then obtain w' b' where l': "heap s' ! m = Linear i out w' b'"
    and ew: "map (map (\<lambda>x. Empty)) w' = map (map (\<lambda>x. Empty)) w"
    and eb: "map (\<lambda>x. Empty) b' = map (\<lambda>x. Empty) b"
    by (cases "heap s' ! m") simp_all
  have "map length (map (map (\<lambda>x. Empty)) w') = map length (map (map (\<lambda>x. Empty)) w)"
    by (simp only: ew)
  then have sw: "map length w' = map length w" by (simp add: comp_def)
  have "length (map (\<lambda>x. Empty) b') = length (map (\<lambda>x. Empty) b)" by (simp only: eb)
  then have sb: "length b' = length b" by simp
  have "length (concat w') = length (concat w)" by (simp only: length_concat sw)
  then have n: "length (concat w' @ b') = length (concat w) + length b" using sb by simp
  from re obtain g where g: "gen s \<le> g" "g + length (concat w' @ b') \<le> gen s'"
    and xs: "concat w' @ b' = map (Draw (Normal 0 0.5)) [g ..< g + length (concat w' @ b')]"
    unfolding l' reinitialised.simps fresh_block_def by auto
  have 1: "g + (length (concat w) + length b) \<le> gen s'" using g(2) unfolding n .
  have 2: "concat w' @ b' = map (Draw (Normal 0 0.5)) [g ..< g + (length (concat w) + length b)]"
    using xs unfolding n .
  show ?thesis using a l' sw sb g(1) 1 2 by (intro exI conjI)
qed

theorem apply_init_weights_reaches_every_Linear_witness:
  "wf_heap [Linear 2 1 [[Empty, Empty]] [Empty], Tanh, Sequential [0, 1], Sequential [2],
        Sequential [3, 1]]
   \<and> reach [Linear 2 1 [[Empty, Empty]] [Empty], Tanh, Sequential [0, 1], Sequential [2],
        Sequential [3, 1]] 4 0
   \<and> (\<exists>s' w' b' g. apply_init_weights 4
          \<lparr>heap = [Linear 2 1 [[Empty, Empty]] [Empty], Tanh, Sequential [0, 1], Sequential [2],
             Sequential [3, 1]], gen = 7\<rparr> = Some s'
        \<and> heap s' ! 0 = Linear 2 1 w' b'
        \<and> map length w' = [2] \<and> length b' = 1
        \<and> 7 \<le> g \<and> g + 3 \<le> gen s'
        \<and> concat w' @ b' = map (Draw (Normal 0 0.5)) [g ..< g + 3])"
proof -
  let ?h = "[Linear 2 1 [[Empty, Empty]] [Empty], Tanh, Sequential [0, 1], Sequential [2],
        Sequential [3, 1]]"
  have wf: "wf_heap ?h" by (simp add: wf_heap_def upt_rec)
  have "reach ?h 0 0" by (rule reach.self) simp
  then have "reach ?h 2 0" by (rule reach.child[rotated 2]) simp_all
  then have "reach ?h 3 0" by (rule reach.child[rotated 2]) simp_all
  then have r: "reach ?h 4 0" by (rule reach.child[rotated 2]) simp_all
  show ?thesis
    using wf r apply_init_weights_reaches_every_Linear[of "\<lparr>heap = ?h, gen = 7\<rparr>" 4 0
        2 1 "[[Empty, Empty]]" "[Empty]"]
    by (simp add: numeral_2_eq_2 numeral_3_eq_3)
qed

text \<open>
  C7. \<open>init_weights\<close> returns the store as it is when the module is not an affine layer,
  and a whole traversal changes nothing but parameter values of affine layers: no object
  is added or removed, every activation and every container is exactly what it was, and
  every affine layer is still an affine layer with the same input and output width.
\<close>

theorem apply_init_weights_frame:
  "(\<not> is_Linear (heap s ! m) \<longrightarrow> init_weights m s = s)
   \<and> (wf_heap (heap s) \<and> net < length (heap s) \<longrightarrow>
       (\<exists>s'. apply_init_weights net s = Some s'
          \<and> length (heap s') = length (heap s)
          \<and> (\<forall>r < length (heap s). \<not> is_Linear (heap s ! r) \<longrightarrow> heap s' ! r = heap s ! r)
          \<and> (\<forall>r < length (heap s). describe (heap s' ! r) = describe (heap s ! r))))"
proof (intro conjI impI)
  assume "\<not> is_Linear (heap s ! m)"
  then show "init_weights m s = s" by (rule init_weights_other)
next
  assume a: "wf_heap (heap s) \<and> net < length (heap s)"
  then obtain s' where r: "apply_init_weights net s = Some s'"
    using apply_init_weights_total by blast
  then have e: "map erase (heap s') = map erase (heap s)"
    unfolding apply_init_weights_def using apply_keeps(1) by blast
  have 1: "length (heap s') = length (heap s)" using e by (rule erase_length)
  have 2: "\<forall>r < length (heap s). \<not> is_Linear (heap s ! r) \<longrightarrow> heap s' ! r = heap s ! r"
    using erase_nth[OF e] erase_other by blast
  have 3: "\<forall>r < length (heap s). describe (heap s' ! r) = describe (heap s ! r)"
  proof (intro allI impI)
    fix r assume "r < length (heap s)"
    then have "erase (heap s' ! r) = erase (heap s ! r)" using e by (intro erase_nth)
    then show "describe (heap s' ! r) = describe (heap s ! r)"
      using describe_erase[of "heap s' ! r"] describe_erase[of "heap s ! r"] by simp
  qed
  show "\<exists>s'. apply_init_weights net s = Some s'
          \<and> length (heap s') = length (heap s)
          \<and> (\<forall>r < length (heap s). \<not> is_Linear (heap s ! r) \<longrightarrow> heap s' ! r = heap s ! r)
          \<and> (\<forall>r < length (heap s). describe (heap s' ! r) = describe (heap s ! r))"
    using r 1 2 3 by (intro exI conjI)
qed

theorem apply_init_weights_frame_witness:
  "init_weights 1 \<lparr>heap = [Linear 1 1 [[Empty]] [Empty], Tanh, Sequential [0, 1]], gen = 0\<rparr>
     = \<lparr>heap = [Linear 1 1 [[Empty]] [Empty], Tanh, Sequential [0, 1]], gen = 0\<rparr>
   \<and> (\<exists>s'. apply_init_weights 2
          \<lparr>heap = [Linear 1 1 [[Empty]] [Empty], Tanh, Sequential [0, 1]], gen = 0\<rparr> = Some s'
        \<and> length (heap s') = 3
        \<and> heap s' ! 1 = Tanh \<and> heap s' ! 2 = Sequential [0, 1]
        \<and> describe (heap s' ! 0) = Affine 1 1)"
proof -
  let ?s = "\<lparr>heap = [Linear 1 1 [[Empty]] [Empty], Tanh, Sequential [0, 1]], gen = 0\<rparr>"
  have wf: "wf_heap (heap ?s)" by (simp add: wf_heap_def upt_rec)
  from apply_init_weights_frame[of ?s 1 2] wf
  have 1: "init_weights 1 ?s = ?s"
    and "\<exists>s'. apply_init_weights 2 ?s = Some s'
          \<and> length (heap s') = length (heap ?s)
          \<and> (\<forall>r < length (heap ?s). \<not> is_Linear (heap ?s ! r) \<longrightarrow> heap s' ! r = heap ?s ! r)
          \<and> (\<forall>r < length (heap ?s). describe (heap s' ! r) = describe (heap ?s ! r))"
    by simp_all
  then obtain s' where a: "apply_init_weights 2 ?s = Some s'"
    and l: "length (heap s') = length (heap ?s)"
    and k: "\<forall>r < length (heap ?s). \<not> is_Linear (heap ?s ! r) \<longrightarrow> heap s' ! r = heap ?s ! r"
    and d: "\<forall>r < length (heap ?s). describe (heap s' ! r) = describe (heap ?s ! r)"
    by blast
  have "heap s' ! 1 = Tanh" using k[rule_format, of 1] by simp
  moreover have "heap s' ! 2 = Sequential [0, 1]" using k[rule_format, of 2] by simp
  moreover have "describe (heap s' ! 0) = Affine 1 1" using d[rule_format, of 0] by simp
  ultimately show ?thesis using 1 a l by simp
qed

text \<open>
  C8. In a store built by constructors, any number of calls of
  \<^verbatim>\<open>net.apply(init_weights)\<close> one after the other finishes, and afterwards every object
  of the store has the shape it had before: the rows of every weight have their lengths
  and every bias has its length.
\<close>

theorem runs_keep_shapes:
  assumes "wf_heap (heap s)" and "net < length (heap s)"
  shows "\<exists>s'. runs nruns net s = Some s' \<and> map shape (heap s') = map shape (heap s)"
proof -
  from runs_erase[OF assms] obtain s' where r: "runs nruns net s = Some s'"
    and e: "map erase (heap s') = map erase (heap s)"
    by blast
  have "map shape (heap s') = map shape (map erase (heap s'))"
    by (simp only: map_shape_erase)
  also have "\<dots> = map shape (heap s)" unfolding e by (rule map_shape_erase)
  finally show ?thesis using r by blast
qed

theorem runs_keep_shapes_witness:
  "\<exists>s'. runs 5 2 \<lparr>heap = [Linear 2 1 [[Empty, Empty]] [Empty], Tanh, Sequential [0, 1]], gen = 0\<rparr>
        = Some s'
     \<and> map shape (heap s') = [Some ([2], 1), None, None]"
proof -
  let ?s = "\<lparr>heap = [Linear 2 1 [[Empty, Empty]] [Empty], Tanh, Sequential [0, 1]], gen = 0\<rparr>"
  have wf: "wf_heap (heap ?s)" by (simp add: wf_heap_def upt_rec)
  show ?thesis using runs_keep_shapes[of ?s 2 5] wf by (simp add: numeral_2_eq_2)
qed

section \<open>The initializer on networks made by the builder\<close>

lemma set_unseen: "set (unseen memo cs) = set cs - set memo"
  by (induction cs arbitrary: memo) auto

lemma set_children_Sequential: "set (children (Sequential cs)) = set cs"
  by (simp add: set_unseen)

lemma wf_heap_snoc:
  assumes "wf_heap h" and "\<forall>c \<in> set (children m). c < length h"
  shows "wf_heap (h @ [m])"
  unfolding wf_heap_iff
proof (intro allI impI ballI)
  fix r c assume r: "r < length (h @ [m])" and c: "c \<in> set (children ((h @ [m]) ! r))"
  show "c < r"
  proof (cases "r < length h")
    case True
    with c assms(1) show ?thesis unfolding wf_heap_iff by (simp add: nth_append)
  next
    case False
    with r have "r = length h" by simp
    with c assms(2) show ?thesis by simp
  qed
qed

lemma hidden_loop_wf:
  assumes "wf_heap (heap s)" and "model < length (heap s)" and "act < length (heap s)"
  shows "wf_heap (heap (snd (hidden_loop k d act model s)))
    \<and> fst (hidden_loop k d act model s) < length (heap (snd (hidden_loop k d act model s)))
    \<and> act < length (heap (snd (hidden_loop k d act model s)))"
  using assms
proof (induction k arbitrary: model s)
  case 0
  then show ?case by simp
next
  case (Suc k)
  let ?L = "length (heap s)"
  obtain w b g where lin: "new_Linear d d s = (?L, \<lparr>heap = heap s @ [Linear d d w b], gen = g\<rparr>)"
    using new_Linear_result by blast
  define s2 where "s2 = \<lparr>heap = heap s @ [Linear d d w b, Sequential [model, ?L, act]], gen = g\<rparr>"
  have step: "hidden_loop (Suc k) d act model s = hidden_loop k d act (Suc ?L) s2"
    using lin by (simp add: new_Sequential_result s2_def)
  have wf1: "wf_heap (heap s @ [Linear d d w b])"
    using Suc.prems(1) by (rule wf_heap_snoc) simp
  have "wf_heap ((heap s @ [Linear d d w b]) @ [Sequential [model, ?L, act]])"
    using Suc.prems(2,3) by (intro wf_heap_snoc[OF wf1]) (auto simp: set_unseen)
  then have "wf_heap (heap s2)" by (simp add: s2_def)
  moreover have "Suc ?L < length (heap s2)" "act < length (heap s2)"
    using Suc.prems(3) by (simp_all add: s2_def)
  ultimately show ?case unfolding step by (rule Suc.IH)
qed

lemma build_wf:
  assumes "wf_heap (heap s)" and "act < length (heap s)"
  shows "wf_heap (heap (snd (build n_network n_class n d (act, s))))
    \<and> fst (build n_network n_class n d (act, s))
        < length (heap (snd (build n_network n_class n d (act, s))))"
proof -
  let ?L = "length (heap s)"
  obtain w0 b0 g0 where lin0:
    "new_Linear n_network d s = (?L, \<lparr>heap = heap s @ [Linear n_network d w0 b0], gen = g0\<rparr>)"
    using new_Linear_result by blast
  define s2 where
    "s2 = \<lparr>heap = heap s @ [Linear n_network d w0 b0, Sequential [?L, act]], gen = g0\<rparr>"
  have wf1: "wf_heap (heap s @ [Linear n_network d w0 b0])"
    using assms(1) by (rule wf_heap_snoc) simp
  have "wf_heap ((heap s @ [Linear n_network d w0 b0]) @ [Sequential [?L, act]])"
    using assms(2) by (intro wf_heap_snoc[OF wf1]) (auto simp: set_unseen)
  then have wf2: "wf_heap (heap s2)" by (simp add: s2_def)
  have b2: "Suc ?L < length (heap s2)" "act < length (heap s2)"
    using assms(2) by (simp_all add: s2_def)
  obtain model1 s3 where loop: "hidden_loop (nat (n - 1)) d act (Suc ?L) s2 = (model1, s3)"
    by (cases "hidden_loop (nat (n - 1)) d act (Suc ?L) s2") simp
  from hidden_loop_wf[OF wf2 b2, of "nat (n - 1)" d] loop
  have wf3: "wf_heap (heap s3)" and m1: "model1 < length (heap s3)" by simp_all
  obtain w1 b1 g1 where lin1: "new_Linear d n_class s3
      = (length (heap s3), \<lparr>heap = heap s3 @ [Linear d n_class w1 b1], gen = g1\<rparr>)"
    using new_Linear_result by blast
  define s5 where "s5 = \<lparr>heap = heap s3 @ [Linear d n_class w1 b1,
      Sequential [model1, length (heap s3)]], gen = g1\<rparr>"
  have b: "build n_network n_class n d (act, s) = (Suc (length (heap s3)), s5)"
    using lin0 loop lin1 by (simp add: build_def new_Sequential_result s2_def s5_def)
  have wf4: "wf_heap (heap s3 @ [Linear d n_class w1 b1])"
    using wf3 by (rule wf_heap_snoc) simp
  have "wf_heap ((heap s3 @ [Linear d n_class w1 b1]) @ [Sequential [model1, length (heap s3)]])"
    using m1 by (intro wf_heap_snoc[OF wf4]) (auto simp: set_unseen)
  then have "wf_heap (heap s5)" by (simp add: s5_def)
  moreover have "Suc (length (heap s3)) < length (heap s5)" by (simp add: s5_def)
  ultimately show ?thesis by (simp add: b)
qed

lemma get_multilayer_perceptron_wf_heap:
  assumes "wf_heap (heap s)"
    and "get_multilayer_perceptron n_network n_class n d activation s = (Inr net, s')"
  shows "wf_heap (heap s') \<and> net < length (heap s')"
proof -
  have wf: "wf_heap (heap s @ [m])" if "children m = []" for m
    using assms(1) by (rule wf_heap_snoc) (simp add: that)
  consider "activation = ''tanh''" | "activation \<noteq> ''tanh''" "activation = ''relu''"
    using assms(2) by (auto simp: get_multilayer_perceptron_def split: if_splits)
  then show ?thesis
  proof cases
    case 1
    have "wf_heap (heap (s\<lparr>heap := heap s @ [Tanh]\<rparr>))"
      "length (heap s) < length (heap (s\<lparr>heap := heap s @ [Tanh]\<rparr>))"
      using wf[of Tanh] by simp_all
    from build_wf[OF this, of n_network n_class n d] assms(2) 1 show ?thesis
      by (auto simp: get_multilayer_perceptron_def new_activation_result split: prod.splits)
  next
    case 2
    have "wf_heap (heap (s\<lparr>heap := heap s @ [ReLU]\<rparr>))"
      "length (heap s) < length (heap (s\<lparr>heap := heap s @ [ReLU]\<rparr>))"
      using wf[of ReLU] by simp_all
    from build_wf[OF this, of n_network n_class n d] assms(2) 2 show ?thesis
      by (auto simp: get_multilayer_perceptron_def new_activation_result split: prod.splits)
  qed
qed

lemma layers_reach:
  "layers n h r = Some ls \<Longrightarrow> m \<in> set ls \<Longrightarrow> reach h r m"
  "layers_list n h cs = Some ls \<Longrightarrow> m \<in> set ls \<Longrightarrow> \<exists>c \<in> set cs. reach h c m"
proof (induction n h r and n h cs arbitrary: ls m and ls m rule: layers_layers_list.induct)
  case (1 h r)
  then show ?case by simp
next
  case (2 n h r)
  from "2.prems"(1) have r: "r < length h" by (simp split: if_splits)
  show ?case
  proof (cases "h ! r")
    case (Sequential cs)
    with "2.prems"(1) r have l: "layers_list n h cs = Some ls" by simp
    from "2.IH"[OF r Sequential l "2.prems"(2)] obtain c where
      "c \<in> set cs" "reach h c m" by blast
    then show ?thesis using r Sequential by (intro reach.child[of r h c m]) (simp_all add: set_unseen)
  qed (use "2.prems" r in \<open>auto intro: reach.self\<close>)
next
  case (3 n h)
  then show ?case by simp
next
  case (4 n h c cs)
  from "4.prems"(1) obtain xs ys where x: "layers n h c = Some xs"
    and y: "layers_list n h cs = Some ys" and ls: "ls = xs @ ys"
    by (auto split: option.splits)
  from "4.prems"(2) ls consider "m \<in> set xs" | "m \<in> set ys" by auto
  then show ?case
  proof cases
    case 1
    from "4.IH"(1)[OF x 1] show ?thesis by simp
  next
    case 2
    from "4.IH"(2)[OF x y 2] show ?thesis by auto
  qed
qed

lemma built_network_reinitialised:
  assumes "wf_heap (heap s)"
    and "get_multilayer_perceptron n_network n_class n d activation s = (Inr net, s1)"
    and "network_layers s1 net = Some ls" and "m \<in> set (affine_layers s1 ls)"
  shows "\<exists>s2. apply_init_weights net s1 = Some s2
      \<and> reinitialised (gen s1) (gen s2) (heap s2 ! m)"
proof -
  have wf: "wf_heap (heap s1)" using get_multilayer_perceptron_wf_heap[OF assms(1,2)] by simp
  from assms(4) have m: "m \<in> set ls" "is_Linear (heap s1 ! m)"
    by (simp_all add: affine_layers_def)
  have r: "reach (heap s1) net m"
    using assms(3) m(1) unfolding network_layers_def by (rule layers_reach(1))
  have "net < length (heap s1)" using reach_bound[OF r] by simp
  with wf obtain s2 where a: "apply_init_weights net s1 = Some s2"
    using apply_init_weights_total by blast
  then have "reinitialised (gen s1) (gen s2) (heap s2 ! m)"
    unfolding apply_init_weights_def using r m(2) by (intro apply_reaches(1)) simp_all
  with a show ?thesis by blast
qed

end
